theory Spec2Isabelle
  imports Main "HOL-Library.Word" "HOL-Library.Multiset"
begin

section \<open>ParSort: a fork-based parallel merge sort on a shared array of int64_t\<close>

text \<open>
  The development embeds \<^verbatim>\<open>src/parsort.c\<close>. The shared array (a memory-mapped file in
  the program) is a list of 64-bit words that is passed to every operation and returned
  updated. Elements are read as two's complement numbers (\<open>sint\<close>); indices of type
  \<^verbatim>\<open>size_t\<close> are 64-bit words read as unsigned numbers (\<open>unat\<close>), so that
  \<^verbatim>\<open>end - begin\<close>, \<^verbatim>\<open>begin + size / 2\<close>, \<^verbatim>\<open>begin + i\<close> and
  \<^verbatim>\<open>size * sizeof(int64_t)\<close> wrap around exactly as in the program.
\<close>

type_synonym int64_t = "64 word"
type_synonym size_t = "64 word"

subsection \<open>Process termination, exit statuses and the call tree\<close>

text \<open>
  A process of the program ends in one of three ways: it returns from \<^verbatim>\<open>merge_sort\<close>
  (the value \<open>Inr\<close>), it calls \<^verbatim>\<open>fatal\<close>, which prints a message and calls
  \<^verbatim>\<open>exit(1)\<close>, or its \<^verbatim>\<open>assert\<close> fails, which raises SIGABRT.
\<close>

datatype error = Fatal string | AssertionFailed

text \<open>
  What \<^verbatim>\<open>waitpid\<close> stores in \<^verbatim>\<open>status\<close> when it is called with options 0: the
  child either exited with a code or was terminated by a signal. The two macros of
  \<^verbatim>\<open>sys/wait.h\<close> read it; \<^verbatim>\<open>WEXITSTATUS\<close> is only meaningful for a child that exited,
  and the program only reads it behind \<^verbatim>\<open>WIFEXITED(status) &&\<close>.
\<close>

datatype wstatus = Exited nat | Signaled nat

definition WIFEXITED :: "wstatus \<Rightarrow> bool" where
  "WIFEXITED status = (case status of Exited code \<Rightarrow> True | Signaled sig \<Rightarrow> False)"

definition WEXITSTATUS :: "wstatus \<Rightarrow> nat" where
  "WEXITSTATUS status = (case status of Exited code \<Rightarrow> code | Signaled sig \<Rightarrow> 0)"

text \<open>
  \<^verbatim>\<open>fork\<close> is the program's only effect besides its writes to the array. Every call of
  \<^verbatim>\<open>merge_sort\<close> reports, next to the array, the tree of calls it caused: a call that took
  the sequential path is a leaf \<open>SeqSort begin end\<close>; a call that forked two children for
  \<open>[begin, mid)\<close> and \<open>[mid, end)\<close> is \<open>Split begin end left right\<close> with the children's
  trees; \<open>Aborted begin end\<close> stands for a child that did not return from its call.
\<close>

datatype sort_tree =
    SeqSort size_t size_t
  | Aborted size_t size_t
  | Split size_t size_t sort_tree sort_tree

subsection \<open>The comparison function and the sequential sort\<close>

definition compare_i64 :: "int64_t \<Rightarrow> int64_t \<Rightarrow> int" where
  "compare_i64 left right =
     (if sint left < sint right then - 1 else if sint left > sint right then 1 else 0)"

text \<open>
  \<^verbatim>\<open>qsort\<close> belongs to the C library, not to the repository. Its contract is that the
  result is a rearrangement of the input in which \<open>cmp x y \<le> 0\<close> holds for every element
  \<open>x\<close> standing before an element \<open>y\<close>; the order of elements that compare equal is
  unspecified. The executable stand-in below inserts one element after the other. For
  \<open>compare_i64\<close> two elements compare equal only when they are the same word, so every
  function that meets the contract returns the same list (lemma \<open>qsort_contract_unique\<close>).
\<close>

fun qsort_insert :: "('a \<Rightarrow> 'a \<Rightarrow> int) \<Rightarrow> 'a \<Rightarrow> 'a list \<Rightarrow> 'a list" where
  "qsort_insert cmp x [] = [x]"
| "qsort_insert cmp x (y # ys) =
     (if cmp x y \<le> 0 then x # y # ys else y # qsort_insert cmp x ys)"

definition qsort :: "('a \<Rightarrow> 'a \<Rightarrow> int) \<Rightarrow> 'a list \<Rightarrow> 'a list" where
  "qsort cmp xs = foldr (qsort_insert cmp) xs []"

text \<open>
  \<^verbatim>\<open>seq_sort\<close> hands \<^verbatim>\<open>arr + begin\<close> and \<^verbatim>\<open>end - begin\<close> elements to \<^verbatim>\<open>qsort\<close>. The
  elements before \<^verbatim>\<open>arr + begin\<close> and after the last sorted element stay as they are.
\<close>

definition seq_sort :: "int64_t list \<Rightarrow> size_t \<Rightarrow> size_t \<Rightarrow> int64_t list" where
  "seq_sort arr begin end =
     (let num_elements = end - begin
      in take (unat begin) arr
         @ qsort compare_i64 (take (unat num_elements) (drop (unat begin) arr))
         @ drop (unat begin + unat num_elements) arr)"

subsection \<open>The merge\<close>

text \<open>
  The pointers \<^verbatim>\<open>left\<close>, \<^verbatim>\<open>right\<close>, \<^verbatim>\<open>endl\<close> and \<^verbatim>\<open>endr\<close> point into \<^verbatim>\<open>arr\<close>
  and \<^verbatim>\<open>dst\<close> into \<^verbatim>\<open>temparr\<close>; each is modelled by its element offset from the start
  of its array, a natural number (pointer arithmetic does not wrap around). One call of
  \<open>merge_loop\<close> is one iteration of \<^verbatim>\<open>for (;;)\<close>. Reading \<open>arr ! i\<close> with
  \<open>i \<ge> length arr\<close> and writing \<open>temparr[dst := v]\<close> with \<open>dst \<ge> length temparr\<close> are
  undefined behaviour in the program; the theorems below assume that the span lies inside
  the array and show that the buffer is large enough.
\<close>

function merge_loop ::
  "int64_t list \<Rightarrow> nat \<Rightarrow> nat \<Rightarrow> nat \<Rightarrow> nat \<Rightarrow> nat \<Rightarrow> int64_t list \<Rightarrow> int64_t list" where
  "merge_loop arr endl endr left right dst temparr =
     (let at_end_l = left \<ge> endl; at_end_r = right \<ge> endr
      in if at_end_l \<and> at_end_r then temparr
         else if at_end_l
           then merge_loop arr endl endr left (right + 1) (dst + 1) (temparr[dst := arr ! right])
         else if at_end_r
           then merge_loop arr endl endr (left + 1) right (dst + 1) (temparr[dst := arr ! left])
         else let cmp = compare_i64 (arr ! left) (arr ! right)
              in if cmp \<le> 0
                 then merge_loop arr endl endr (left + 1) right (dst + 1)
                        (temparr[dst := arr ! left])
                 else merge_loop arr endl endr left (right + 1) (dst + 1)
                        (temparr[dst := arr ! right]))"
  by pat_completeness auto
termination
  by (relation "measure (\<lambda>(arr, endl, endr, left, right, dst, temparr).
        (endl - left) + (endr - right))") auto

definition merge ::
  "int64_t list \<Rightarrow> size_t \<Rightarrow> size_t \<Rightarrow> size_t \<Rightarrow> int64_t list \<Rightarrow> int64_t list" where
  "merge arr begin mid end temparr =
     merge_loop arr (unat mid) (unat end) (unat begin) (unat mid) 0 temparr"

subsection \<open>Fatal errors and waiting for a child\<close>

text \<open>\<^verbatim>\<open>fatal\<close> prints \<^verbatim>\<open>"Error: %s\n"\<close> and ends the process with \<^verbatim>\<open>exit(1)\<close>.\<close>

definition fatal :: "string \<Rightarrow> error + 'a" where
  "fatal msg = Inl (Fatal (''Error: '' @ msg @ [CHR 0x0A]))"

text \<open>
  The argument of \<open>wait_for_sort_process\<close> is what \<^verbatim>\<open>waitpid(pid, &status, 0)\<close> delivers:
  \<open>None\<close> when it returns -1, otherwise the child's status.
\<close>

definition wait_for_sort_process :: "wstatus option \<Rightarrow> error + unit" where
  "wait_for_sort_process waited =
     (case waited of
        None \<Rightarrow> fatal ''Error: waitpid failure''
      | Some status \<Rightarrow>
          if WIFEXITED status \<and> WEXITSTATUS status \<noteq> 0
          then fatal ''Error: Child process exited with error''
          else Inr ())"

subsection \<open>The operating system\<close>

text \<open>
  What the operating system may do to a run of the program, told by the call concerned:
  \<open>fork_fails os begin end\<close> when \<^verbatim>\<open>fork\<close> returns -1 in
  \<^verbatim>\<open>create_sort_process(arr, begin, end, threshold)\<close>; \<open>child_signal os begin end = Some sig\<close>
  when the child created for \<open>[begin, end)\<close> is terminated by the signal \<open>sig\<close> before
  it has written to the array; \<open>malloc_fails os n\<close> when \<^verbatim>\<open>malloc(n)\<close> returns
  \<^verbatim>\<open>NULL\<close>. \<^verbatim>\<open>waitpid\<close> is called with options 0 for a child of the caller, and the
  program installs no signal handler, so it returns the child's status.
\<close>

record os =
  fork_fails :: "size_t \<Rightarrow> size_t \<Rightarrow> bool"
  child_signal :: "size_t \<Rightarrow> size_t \<Rightarrow> nat option"
  malloc_fails :: "size_t \<Rightarrow> bool"

text \<open>
  The child created by \<^verbatim>\<open>create_sort_process\<close> runs \<^verbatim>\<open>merge_sort\<close> on its span of the
  shared array and calls \<^verbatim>\<open>exit(0)\<close>. \<open>child_exit\<close> turns the outcome of that call into
  what the parent observes: the status for \<^verbatim>\<open>waitpid\<close>, the shared array and the child's
  call tree. A failed assertion stops the child before its first write, so the array is
  the one it started with. After \<^verbatim>\<open>fatal\<close> in the child the shared array holds whatever
  the child's own children wrote; the parent is then fatal as well and reads the array no
  more, so \<open>child_exit\<close> does not track those writes and gives the array as it was when the
  child started.
\<close>

definition child_exit ::
  "int64_t list \<Rightarrow> size_t \<Rightarrow> size_t \<Rightarrow> error + int64_t list \<times> sort_tree \<Rightarrow>
   wstatus \<times> int64_t list \<times> sort_tree" where
  "child_exit arr begin end outcome =
     (case outcome of
        Inr (arr', tree) \<Rightarrow> (Exited 0, arr', tree)
      | Inl (Fatal msg) \<Rightarrow> (Exited 1, arr, Aborted begin end)
      | Inl AssertionFailed \<Rightarrow> (Signaled 6, arr, Aborted begin end))"

subsection \<open>The temporary buffer and the copy back\<close>

text \<open>
  \<^verbatim>\<open>malloc(n)\<close> returns \<^verbatim>\<open>NULL\<close> or room for \<open>n div 8\<close> elements of 8 bytes whose
  contents are indeterminate; the model fills them with zeros, and lemma
  \<open>merge_buffer_irrelevant\<close> shows that the merged array does not depend on them.
\<close>

definition malloc :: "os \<Rightarrow> size_t \<Rightarrow> int64_t list option" where
  "malloc os nbytes =
     (if malloc_fails os nbytes then None else Some (replicate (unat nbytes div 8) 0))"

text \<open>The loop \<^verbatim>\<open>for (size_t i = 0; i < size; i++) arr[begin + i] = temp_arr[i];\<close>\<close>

function copy_back ::
  "int64_t list \<Rightarrow> size_t \<Rightarrow> size_t \<Rightarrow> size_t \<Rightarrow> int64_t list \<Rightarrow> int64_t list" where
  "copy_back arr begin size' i temp_arr =
     (if i < size'
      then copy_back (arr[unat (begin + i) := temp_arr ! unat i]) begin size' (i + 1) temp_arr
      else arr)"
  by pat_completeness auto
termination
  by (relation "measure (\<lambda>(arr, begin, size', i, temp_arr). unat size' - unat i)")
     (simp, unat_arith)

subsection \<open>The parallel merge sort\<close>

text \<open>
  \<open>merge_sort os arr begin end threshold\<close> is the outcome of the call in the process that
  makes it: \<open>Some (Inr (arr', tree))\<close> when it returns, with the shared array and the
  call tree; \<open>Some (Inl e)\<close> when the process ends in \<^verbatim>\<open>fatal\<close> or in a failed assertion;
  \<open>None\<close> when it never ends.

  Both children are created before the parent waits, so a failing \<^verbatim>\<open>fork\<close> for the
  right child is fatal whatever the left child does. The two children work on disjoint
  spans of the shared array (lemmas \<open>seq_sort_frame\<close> and \<open>copy_back_frame\<close>), so
  their concurrent runs have the effect of the left child's run followed by the right
  child's. The parent blocks in \<^verbatim>\<open>waitpid\<close> until the child has ended: a child that runs
  forever makes the parent wait forever.
\<close>

partial_function (option) merge_sort ::
  "os \<Rightarrow> int64_t list \<Rightarrow> size_t \<Rightarrow> size_t \<Rightarrow> size_t \<Rightarrow>
   (error + int64_t list \<times> sort_tree) option" where
  "merge_sort os arr begin end threshold =
     (if \<not> (end \<ge> begin) then Some (Inl AssertionFailed)
      else let size' = end - begin
      in if size' \<le> threshold
         then Some (Inr (seq_sort arr begin end, SeqSort begin end))
         else let mid = begin + size' div 2
         in if fork_fails os begin mid
            then Some (fatal ''Error: fork failed to start a new process'')
            else if fork_fails os mid end
            then Some (fatal ''Error: fork failed to start a new process'')
            else
            Option.bind
              (case child_signal os begin mid of
                 Some sig \<Rightarrow> Some (Signaled sig, arr, Aborted begin mid)
               | None \<Rightarrow>
                   Option.bind (merge_sort os arr begin mid threshold)
                     (\<lambda>outcome. Some (child_exit arr begin mid outcome)))
              (\<lambda>(left_status, arr1, left_tree).
            case wait_for_sort_process (Some left_status) of
              Inl err \<Rightarrow> Some (Inl err)
            | Inr _ \<Rightarrow>
            Option.bind
              (case child_signal os mid end of
                 Some sig \<Rightarrow> Some (Signaled sig, arr1, Aborted mid end)
               | None \<Rightarrow>
                   Option.bind (merge_sort os arr1 mid end threshold)
                     (\<lambda>outcome. Some (child_exit arr1 mid end outcome)))
              (\<lambda>(right_status, arr2, right_tree).
            case wait_for_sort_process (Some right_status) of
              Inl err \<Rightarrow> Some (Inl err)
            | Inr _ \<Rightarrow>
                (case malloc os (size' * 8) of
                   None \<Rightarrow> Some (fatal ''malloc() failed'')
                 | Some temp_arr \<Rightarrow>
                     Some (Inr (copy_back arr2 begin size' 0 (merge arr2 begin mid end temp_arr),
                                Split begin end left_tree right_tree))))))"

declare merge_sort.simps [code]

text \<open>
  A run is undisturbed when every \<^verbatim>\<open>fork\<close> and every \<^verbatim>\<open>malloc\<close> succeeds and no child
  is terminated by a signal; the last condition alone is \<open>no_child_killed\<close>.
  \<open>quiet_os\<close> is the operating system of an undisturbed run.
\<close>

definition undisturbed :: "os \<Rightarrow> bool" where
  "undisturbed os =
     ((\<forall>b e. \<not> fork_fails os b e) \<and> (\<forall>b e. child_signal os b e = None) \<and>
      (\<forall>n. \<not> malloc_fails os n))"

definition no_child_killed :: "os \<Rightarrow> bool" where
  "no_child_killed os = (\<forall>b e. child_signal os b e = None)"

definition quiet_os :: os where
  "quiet_os = \<lparr>fork_fails = (\<lambda>b e. False), child_signal = (\<lambda>b e. None),
                malloc_fails = (\<lambda>n. False)\<rparr>"

declare merge_loop.simps [simp del] copy_back.simps [simp del]

subsection \<open>Notions used to state the properties\<close>

text \<open>
  \<open>seg xs i j\<close> is the list of the elements of \<open>xs\<close> at the offsets \<open>i, \<dots>, j - 1\<close>, and
  \<open>segment arr begin end\<close> the contents of the span \<open>[begin, end)\<close> of the array.
  \<open>ascending\<close> is the order of \<^verbatim>\<open>int64_t\<close>: the words read as signed numbers.
\<close>

definition seg :: "'a list \<Rightarrow> nat \<Rightarrow> nat \<Rightarrow> 'a list" where
  "seg xs i j = take (j - i) (drop i xs)"

definition segment :: "int64_t list \<Rightarrow> size_t \<Rightarrow> size_t \<Rightarrow> int64_t list" where
  "segment arr begin end = seg arr (unat begin) (unat end)"

definition ascending :: "int64_t list \<Rightarrow> bool" where
  "ascending xs = sorted (map sint xs)"

text \<open>
  The two-way merge on lists that the loop of \<^verbatim>\<open>merge\<close> computes (lemma
  \<open>merge_loop_refines\<close>): the head of the left list is taken when \<open>compare_i64\<close> returns
  at most 0, and a list that is left over is appended as it is.
\<close>

fun merge_lists :: "int64_t list \<Rightarrow> int64_t list \<Rightarrow> int64_t list" where
  "merge_lists [] rs = rs"
| "merge_lists ls [] = ls"
| "merge_lists (l # ls) (r # rs) =
     (if compare_i64 l r \<le> 0
      then l # merge_lists ls (r # rs)
      else r # merge_lists (l # ls) rs)"

text \<open>
  Readings of a call tree: the span of its root call, the calls that forked (with the
  trees of their two children), the spans sorted by \<^verbatim>\<open>seq_sort\<close>, and whether some
  child did not return. \<open>call_tree_inv\<close> is the invariant of the trees that
  \<open>merge_sort\<close> reports.
\<close>

fun span :: "sort_tree \<Rightarrow> size_t \<times> size_t" where
  "span (SeqSort b e) = (b, e)"
| "span (Aborted b e) = (b, e)"
| "span (Split b e l r) = (b, e)"

fun splits :: "sort_tree \<Rightarrow> (size_t \<times> size_t \<times> sort_tree \<times> sort_tree) list" where
  "splits (SeqSort b e) = []"
| "splits (Aborted b e) = []"
| "splits (Split b e l r) = (b, e, l, r) # splits l @ splits r"

fun leaves :: "sort_tree \<Rightarrow> (size_t \<times> size_t) list" where
  "leaves (SeqSort b e) = [(b, e)]"
| "leaves (Aborted b e) = []"
| "leaves (Split b e l r) = leaves l @ leaves r"

fun aborted :: "sort_tree \<Rightarrow> bool" where
  "aborted (SeqSort b e) = False"
| "aborted (Aborted b e) = True"
| "aborted (Split b e l r) = (aborted l \<or> aborted r)"

fun call_tree_inv :: "size_t \<Rightarrow> sort_tree \<Rightarrow> bool" where
  "call_tree_inv threshold (SeqSort b e) = (b \<le> e \<and> e - b \<le> threshold)"
| "call_tree_inv threshold (Aborted b e) = False"
| "call_tree_inv threshold (Split b e l r) =
     (b \<le> e \<and> threshold < e - b \<and>
      span l = (b, b + (e - b) div 2) \<and> span r = (b + (e - b) div 2, e) \<and>
      call_tree_inv threshold l \<and> call_tree_inv threshold r)"

section \<open>Properties\<close>

subsection \<open>Comparison, sequential sort and list merge\<close>

lemma compare_i64_le: "compare_i64 x y \<le> 0 \<longleftrightarrow> sint x \<le> sint y"
  by (simp add: compare_i64_def)

lemma ascending_Nil [simp]: "ascending []"
  by (simp add: ascending_def)

lemma ascending_Cons: "ascending (x # xs) \<longleftrightarrow> (\<forall>y \<in> set xs. sint x \<le> sint y) \<and> ascending xs"
  by (auto simp: ascending_def)

lemma mset_qsort_insert: "mset (qsort_insert cmp x ys) = add_mset x (mset ys)"
  by (induction ys) simp_all

lemma set_qsort_insert: "set (qsort_insert cmp x ys) = insert x (set ys)"
  using mset_qsort_insert [of cmp x ys, THEN arg_cong, of set_mset] by simp

lemma ascending_qsort_insert:
  "ascending ys \<Longrightarrow> ascending (qsort_insert compare_i64 x ys)"
  by (induction ys) (auto simp: ascending_Cons set_qsort_insert compare_i64_le)

lemma mset_qsort: "mset (qsort cmp xs) = mset xs"
  by (induction xs) (simp_all add: qsort_def mset_qsort_insert)

lemma length_qsort: "length (qsort cmp xs) = length xs"
  using mset_qsort [of cmp xs, THEN arg_cong, of size] by simp

lemma ascending_qsort: "ascending (qsort compare_i64 xs)"
  by (induction xs) (simp_all add: qsort_def ascending_qsort_insert)

lemma ascending_unique:
  assumes "ascending xs" and "ascending ys" and "mset xs = mset ys"
  shows "xs = ys"
proof -
  have "mset (map sint xs) = mset (map sint ys)"
    using assms(3) by simp
  with assms(1,2) have "map sint xs = map sint ys"
    unfolding ascending_def by (metis properties_for_sort)
  moreover have "inj (sint :: int64_t \<Rightarrow> int)"
    by (rule injI) (rule signed_word_eqI, simp)
  ultimately show ?thesis
    by (simp add: inj_map_eq_map)
qed

lemma qsort_contract_unique:
  assumes "sorted_wrt (\<lambda>x y. compare_i64 x y \<le> 0) ys" and "mset ys = mset xs"
  shows "ys = qsort compare_i64 xs"
proof -
  have "ascending ys"
    using assms(1) by (simp add: ascending_def sorted_wrt_map compare_i64_le)
  then show ?thesis
    by (rule ascending_unique) (simp_all add: ascending_qsort mset_qsort assms(2))
qed

lemma mset_merge_lists: "mset (merge_lists xs ys) = mset xs + mset ys"
  by (induction xs ys rule: merge_lists.induct) simp_all

lemma set_merge_lists: "set (merge_lists xs ys) = set xs \<union> set ys"
  using mset_merge_lists [of xs ys, THEN arg_cong, of set_mset] by simp

lemma ascending_merge_lists:
  "ascending xs \<Longrightarrow> ascending ys \<Longrightarrow> ascending (merge_lists xs ys)"
  by (induction xs ys rule: merge_lists.induct)
     (auto simp: ascending_Cons set_merge_lists compare_i64_le)

lemma seg_Cons: "i < j \<Longrightarrow> j \<le> length xs \<Longrightarrow> seg xs i j = xs ! i # seg xs (Suc i) j"
proof -
  assume "i < j" "j \<le> length xs"
  then have "drop i xs = xs ! i # drop (Suc i) xs" "j - i = Suc (j - Suc i)"
    by (simp_all add: Cons_nth_drop_Suc)
  then show ?thesis by (simp add: seg_def)
qed

lemma seg_empty [simp]: "j \<le> i \<Longrightarrow> seg xs i j = []"
  by (simp add: seg_def)

lemma merge_lists_Nil2 [simp]: "merge_lists xs [] = xs"
  by (cases xs) simp_all

lemma take_Suc_update:
  "dst < length tmp \<Longrightarrow> take (Suc dst) (tmp[dst := v]) = take dst tmp @ [v]"
  by (simp add: take_Suc_conv_app_nth)

lemma merge_loop_step:
  "merge_loop arr endl endr left right dst temparr =
     (if endl \<le> left \<and> endr \<le> right then temparr
      else if endl \<le> left \<or> (right < endr \<and> \<not> compare_i64 (arr ! left) (arr ! right) \<le> 0)
        then merge_loop arr endl endr left (Suc right) (Suc dst) (temparr[dst := arr ! right])
        else merge_loop arr endl endr (Suc left) right (Suc dst) (temparr[dst := arr ! left]))"
  by (subst merge_loop.simps) (auto simp: Let_def)

lemma merge_loop_refines:
  "left \<le> endl \<Longrightarrow> right \<le> endr \<Longrightarrow> endl \<le> length arr \<Longrightarrow> endr \<le> length arr \<Longrightarrow>
   dst + (endl - left) + (endr - right) \<le> length temparr \<Longrightarrow>
   merge_loop arr endl endr left right dst temparr =
     take dst temparr @ merge_lists (seg arr left endl) (seg arr right endr)
       @ drop (dst + (endl - left) + (endr - right)) temparr"
proof (induction "(endl - left) + (endr - right)" arbitrary: left right dst temparr rule: less_induct)
  case less
  note bounds = less.prems
  consider (finished) "endl \<le> left" "endr \<le> right"
    | (take_r) "right < endr" "endl \<le> left \<or> \<not> compare_i64 (arr ! left) (arr ! right) \<le> 0"
    | (take_l) "left < endl" "endr \<le> right \<or> compare_i64 (arr ! left) (arr ! right) \<le> 0"
    by linarith
  then show ?case
  proof cases
    case finished
    with bounds show ?thesis
      by (subst merge_loop_step) simp
  next
    case take_r
    let ?tmp = "temparr[dst := arr ! right]"
    have "merge_loop arr endl endr left right dst temparr
        = merge_loop arr endl endr left (Suc right) (Suc dst) ?tmp"
      using take_r by (subst merge_loop_step) auto
    also have "\<dots> = take (Suc dst) ?tmp @ merge_lists (seg arr left endl) (seg arr (Suc right) endr)
          @ drop (Suc dst + (endl - left) + (endr - Suc right)) ?tmp"
      using take_r bounds by (intro less.hyps) auto
    also have "take (Suc dst) ?tmp = take dst temparr @ [arr ! right]"
      using take_r bounds by (intro take_Suc_update) auto
    also have "drop (Suc dst + (endl - left) + (endr - Suc right)) ?tmp
        = drop (dst + (endl - left) + (endr - right)) temparr"
      using take_r bounds by (simp add: Suc_diff_Suc)
    finally show ?thesis
      using take_r bounds
      by (cases "left < endl") (simp_all add: seg_Cons [of right endr] seg_Cons [of left endl])
  next
    case take_l
    let ?tmp = "temparr[dst := arr ! left]"
    have "merge_loop arr endl endr left right dst temparr
        = merge_loop arr endl endr (Suc left) right (Suc dst) ?tmp"
      using take_l by (subst merge_loop_step) auto
    also have "\<dots> = take (Suc dst) ?tmp @ merge_lists (seg arr (Suc left) endl) (seg arr right endr)
          @ drop (Suc dst + (endl - Suc left) + (endr - right)) ?tmp"
      using take_l bounds by (intro less.hyps) auto
    also have "take (Suc dst) ?tmp = take dst temparr @ [arr ! left]"
      using take_l bounds by (intro take_Suc_update) auto
    also have "drop (Suc dst + (endl - Suc left) + (endr - right)) ?tmp
        = drop (dst + (endl - left) + (endr - right)) temparr"
      using take_l bounds by (simp add: Suc_diff_Suc)
    finally show ?thesis
      using take_l bounds
      by (cases "right < endr") (simp_all add: seg_Cons [of right endr] seg_Cons [of left endl])
  qed
qed

subsection \<open>Index arithmetic, the copy back and the buffer\<close>

lemma unat_succ: "(i :: size_t) < n \<Longrightarrow> unat (i + 1) = Suc (unat i)"
  by unat_arith

lemma unat_offset:
  "unat (b :: size_t) + unat i < 2 ^ 64 \<Longrightarrow> unat (b + i) = unat b + unat i"
  using unat_add_lem [of b i] by simp

lemma unat_span: "(b :: size_t) \<le> e \<Longrightarrow> unat (e - b) = unat e - unat b"
  by (rule unat_sub)

lemma unat_mid:
  assumes "(b :: size_t) \<le> e"
  shows "unat (b + (e - b) div 2) = unat b + (unat e - unat b) div 2"
proof -
  have "unat ((e - b) div 2) = (unat e - unat b) div 2"
    using assms by (simp add: unat_div unat_sub)
  moreover have "unat b + (unat e - unat b) div 2 < 2 ^ 64"
    using assms unsigned_less [of e, where 'a = nat] by (simp add: word_le_nat_alt) 
  ultimately show ?thesis
    using unat_offset [of b "(e - b) div 2"] by simp
qed

lemma unat_times_8: "unat (n :: size_t) < 2 ^ 61 \<Longrightarrow> unat (n * 8) = unat n * 8"
  using unat_mult_lem [of n 8] by simp

lemma length_malloc:
  "malloc os (n * 8) = Some tmp \<Longrightarrow> unat n < 2 ^ 61 \<Longrightarrow> length tmp = unat n"
  by (auto simp: malloc_def unat_times_8 split: if_splits)

lemma undisturbedD:
  assumes "undisturbed os"
  shows "\<not> fork_fails os b e" and "child_signal os b e = None"
    and "malloc os n = Some (replicate (unat n div 8) 0)"
  using assms by (simp_all add: undisturbed_def malloc_def)

lemma undisturbed_quiet_os: "undisturbed quiet_os"
  by (simp add: undisturbed_def quiet_os_def)

lemma seg_append: "i \<le> j \<Longrightarrow> j \<le> k \<Longrightarrow> seg xs i j @ seg xs j k = seg xs i k"
proof -
  assume "i \<le> j" "j \<le> k"
  then have "take (k - i) (drop i xs) = take ((j - i) + (k - j)) (drop i xs)"
    by simp
  also have "\<dots> = take (j - i) (drop i xs) @ take (k - j) (drop (j - i) (drop i xs))"
    by (rule take_add)
  also have "drop (j - i) (drop i xs) = drop j xs"
    using \<open>i \<le> j\<close> by simp
  finally show ?thesis
    by (simp add: seg_def)
qed

lemma seg_whole [simp]: "seg xs 0 (length xs) = xs"
  by (simp add: seg_def)

lemma length_seg: "j \<le> length xs \<Longrightarrow> length (seg xs i j) = j - i"
  by (simp add: seg_def)

lemma seg_sandwich:
  "length pre = i \<Longrightarrow> length mid = j - i \<Longrightarrow> i \<le> j \<Longrightarrow> seg (pre @ mid @ post) i j = mid"
  by (simp add: seg_def)

lemma copy_back_eq:
  "i \<le> n \<Longrightarrow> unat b + unat n \<le> length arr \<Longrightarrow> unat b + unat n < 2 ^ 64 \<Longrightarrow>
   unat n \<le> length tmp \<Longrightarrow>
   copy_back arr b n i tmp
     = take (unat b + unat i) arr @ seg tmp (unat i) (unat n) @ drop (unat b + unat n) arr"
proof (induction "unat n - unat i" arbitrary: i arr rule: less_induct)
  case less
  show ?case
  proof (cases "i < n")
    case False
    with less.prems have "i = n" by simp
    with less.prems show ?thesis
      by (subst copy_back.simps) simp
  next
    case True
    then have lt: "unat i < unat n" by (simp add: word_less_nat_alt)
    let ?k = "unat b + unat i"
    let ?arr = "arr[?k := tmp ! unat i]"
    have suc: "unat (i + 1) = Suc (unat i)" using True by (rule unat_succ)
    have off: "unat (b + i) = ?k" using lt less.prems by (intro unat_offset) simp
    have "copy_back arr b n i tmp = copy_back ?arr b n (i + 1) tmp"
      using True by (subst copy_back.simps) (simp add: off)
    also have "\<dots> = take (unat b + unat (i + 1)) ?arr @ seg tmp (unat (i + 1)) (unat n)
        @ drop (unat b + unat n) ?arr"
      using True lt less.prems by (intro less.hyps) (simp_all add: suc inc_le)
    also have "take (unat b + unat (i + 1)) ?arr = take ?k arr @ [tmp ! unat i]"
      using lt less.prems by (simp add: suc take_Suc_update)
    also have "drop (unat b + unat n) ?arr = drop (unat b + unat n) arr"
      using lt by simp
    finally show ?thesis
      using lt less.prems by (simp add: suc seg_Cons [of "unat i" "unat n"])
  qed
qed

lemma merge_eq:
  assumes "b \<le> m" "m \<le> e" "unat e \<le> length arr" "unat e - unat b \<le> length tmp"
  shows "merge arr b m e tmp
     = merge_lists (seg arr (unat b) (unat m)) (seg arr (unat m) (unat e))
       @ drop (unat e - unat b) tmp"
proof -
  have "unat b \<le> unat m" "unat m \<le> unat e"
    using assms(1,2) by (simp_all add: word_le_nat_alt)
  then show ?thesis
    unfolding merge_def using assms(3,4)
    by (subst merge_loop_refines) simp_all
qed

lemma seq_sort_eq:
  "b \<le> e \<Longrightarrow> seq_sort arr b e
     = take (unat b) arr @ qsort compare_i64 (seg arr (unat b) (unat e)) @ drop (unat e) arr"
  by (simp add: seq_sort_def Let_def unat_span seg_def word_le_nat_alt)

subsection \<open>Merging two sorted halves\<close>

lemma length_seq_sort: "b \<le> e \<Longrightarrow> unat e \<le> length arr \<Longrightarrow> length (seq_sort arr b e) = length arr"
  by (simp add: seq_sort_eq length_qsort length_seg word_le_nat_alt)

lemma mid_bounds:
  assumes "(b :: size_t) \<le> e"
  shows "b \<le> b + (e - b) div 2" and "b + (e - b) div 2 \<le> e"
  using assms by (simp_all add: word_le_nat_alt unat_mid)

lemma seg_prefix: "length xs = n \<Longrightarrow> seg (xs @ ys) 0 n = xs"
  by (simp add: seg_def)

lemma seg_drop_cong: "drop i xs = drop i ys \<Longrightarrow> seg xs i j = seg ys i j"
  by (simp add: seg_def)

lemma merge_copy_back_eq:
  assumes "b \<le> m" "m \<le> e" "unat e \<le> length arr" "unat e - unat b \<le> length tmp"
  shows "copy_back arr b (e - b) 0 (merge arr b m e tmp)
     = take (unat b) arr @ merge_lists (seg arr (unat b) (unat m)) (seg arr (unat m) (unat e))
       @ drop (unat e) arr"
proof -
  let ?ml = "merge_lists (seg arr (unat b) (unat m)) (seg arr (unat m) (unat e))"
  have le: "unat b \<le> unat m" "unat m \<le> unat e" "b \<le> e"
    using assms(1,2) by (simp_all add: word_le_nat_alt)
  have n: "unat (e - b) = unat e - unat b"
    using le(3) by (rule unat_span)
  have len: "length ?ml = unat e - unat b"
    using le assms(3) mset_merge_lists [of "seg arr (unat b) (unat m)" "seg arr (unat m) (unat e)", THEN arg_cong, of size]
    by (simp add: length_seg)
  have m: "merge arr b m e tmp = ?ml @ drop (unat e - unat b) tmp"
    using assms by (rule merge_eq)
  have "copy_back arr b (e - b) 0 (merge arr b m e tmp)
      = take (unat b + unat (0 :: size_t)) arr @ seg (merge arr b m e tmp) (unat (0 :: size_t)) (unat (e - b))
        @ drop (unat b + unat (e - b)) arr"
    using le assms(3,4) unsigned_less [of e, where 'a = nat]
    by (intro copy_back_eq) (simp_all add: n m len)
  also have "seg (merge arr b m e tmp) (unat (0 :: size_t)) (unat (e - b)) = ?ml"
    by (simp add: n m seg_prefix len)
  finally show ?thesis
    using le by (simp add: n)
qed

lemma seq_sort_twice:
  assumes "b \<le> m" "m \<le> e" "unat e \<le> length arr"
  shows "seq_sort (seq_sort arr b m) m e
     = take (unat b) arr @ qsort compare_i64 (seg arr (unat b) (unat m))
       @ qsort compare_i64 (seg arr (unat m) (unat e)) @ drop (unat e) arr"
proof -
  have le: "unat b \<le> unat m" "unat m \<le> unat e"
    using assms(1,2) by (simp_all add: word_le_nat_alt)
  let ?L = "qsort compare_i64 (seg arr (unat b) (unat m))"
  let ?a1 = "take (unat b) arr @ ?L @ drop (unat m) arr"
  have lenL: "length ?L = unat m - unat b"
    using le assms(3) by (simp add: length_qsort length_seg)
  have a1: "seq_sort arr b m = ?a1"
    using assms(1) by (rule seq_sort_eq)
  have t: "take (unat m) ?a1 = take (unat b) arr @ ?L"
    using le assms(3) by (simp add: lenL)
  have d: "drop (unat m) ?a1 = drop (unat m) arr"
    using le assms(3) by (simp add: lenL)
  have d2: "drop (unat e) ?a1 = drop (unat e) arr"
    using le assms(3) by (simp add: lenL)
  have s: "seg ?a1 (unat m) (unat e) = seg arr (unat m) (unat e)"
    using d by (rule seg_drop_cong)
  show ?thesis
    unfolding seq_sort_eq [OF assms(2)] a1 t d2 s by simp
qed

lemma seg_of_parts:
  assumes "length pre = i" "length xs = j - i" "length ys = k - j" "i \<le> j" "j \<le> k"
  shows "seg (pre @ xs @ ys @ post) i j = xs" and "seg (pre @ xs @ ys @ post) j k = ys"
  using assms by (simp_all add: seg_def)

lemma sorted_halves_merge:
  assumes "b \<le> e" "unat e \<le> length arr" "unat e - unat b \<le> length tmp"
  shows "copy_back (seq_sort (seq_sort arr b (b + (e - b) div 2)) (b + (e - b) div 2) e) b (e - b) 0
           (merge (seq_sort (seq_sort arr b (b + (e - b) div 2)) (b + (e - b) div 2) e)
              b (b + (e - b) div 2) e tmp)
         = seq_sort arr b e"
proof -
  define m where "m = b + (e - b) div 2"
  have bm: "b \<le> m" and me: "m \<le> e"
    unfolding m_def using assms(1) by (rule mid_bounds)+
  have le: "unat b \<le> unat m" "unat m \<le> unat e"
    using bm me by (simp_all add: word_le_nat_alt)
  let ?L = "qsort compare_i64 (seg arr (unat b) (unat m))"
  let ?R = "qsort compare_i64 (seg arr (unat m) (unat e))"
  let ?a2 = "take (unat b) arr @ ?L @ ?R @ drop (unat e) arr"
  have a2: "seq_sort (seq_sort arr b m) m e = ?a2"
    using bm me assms(2) by (rule seq_sort_twice)
  have lens: "length ?L = unat m - unat b" "length ?R = unat e - unat m"
    using le assms(2) by (simp_all add: length_qsort length_seg)
  have len_a2: "length ?a2 = length arr"
    using le assms(2) by (simp add: lens)
  note buf = assms(3)
  have segs: "seg ?a2 (unat b) (unat m) = ?L" "seg ?a2 (unat m) (unat e) = ?R"
    using le assms(2) by (intro seg_of_parts; simp add: lens)+
  have "copy_back ?a2 b (e - b) 0 (merge ?a2 b m e tmp)
      = take (unat b) ?a2 @ merge_lists ?L ?R @ drop (unat e) ?a2"
    using bm me assms(2) by (subst merge_copy_back_eq) (simp_all add: len_a2 buf segs del: length_append)
  also have "take (unat b) ?a2 = take (unat b) arr"
    using le assms(2) by simp
  also have "drop (unat e) ?a2 = drop (unat e) arr"
    using le assms(2) by (simp add: lens)
  also have "merge_lists ?L ?R = qsort compare_i64 (seg arr (unat b) (unat e))"
  proof (rule ascending_unique)
    show "ascending (merge_lists ?L ?R)"
      by (intro ascending_merge_lists ascending_qsort)
    show "ascending (qsort compare_i64 (seg arr (unat b) (unat e)))"
      by (rule ascending_qsort)
    show "mset (merge_lists ?L ?R) = mset (qsort compare_i64 (seg arr (unat b) (unat e)))"
      using le by (simp add: mset_merge_lists mset_qsort flip: seg_append [of "unat b" "unat m" "unat e"])
  qed
  finally have "copy_back ?a2 b (e - b) 0 (merge ?a2 b m e tmp)
      = take (unat b) arr @ qsort compare_i64 (seg arr (unat b) (unat e)) @ drop (unat e) arr" .
  then show ?thesis
    unfolding m_def [symmetric] a2 seq_sort_eq [OF assms(1)] .
qed

subsection \<open>The recursion\<close>

lemma wait_ok_iff:
  "wait_for_sort_process w = Inr u \<longleftrightarrow> (\<exists>st. w = Some st \<and> (st = Exited 0 \<or> (\<exists>sig. st = Signaled sig)))"
  by (auto simp: wait_for_sort_process_def fatal_def WIFEXITED_def WEXITSTATUS_def split: option.splits wstatus.splits)

lemma wait_exited_0 [simp]: "wait_for_sort_process (Some (Exited 0)) = Inr ()"
  by (simp add: wait_for_sort_process_def WEXITSTATUS_def)

lemma child_exit_Inr [simp]: "child_exit arr b e (Inr (a, t)) = (Exited 0, a, t)"
  by (simp add: child_exit_def)

lemma merge_sort_ends:
  "threshold \<noteq> 0 \<Longrightarrow> b \<le> e \<Longrightarrow> \<exists>y. merge_sort os arr b e threshold = Some y"
proof (induction "unat (e - b)" arbitrary: arr b e rule: less_induct)
  case less
  show ?case
  proof (cases "e - b \<le> threshold")
    case True
    with \<open>b \<le> e\<close> show ?thesis
      by (subst merge_sort.simps) (simp add: Let_def)
  next
    case False
    define m where "m = b + (e - b) div 2"
    have bm: "b \<le> m" and me: "m \<le> e"
      unfolding m_def using \<open>b \<le> e\<close> by (rule mid_bounds)+
    have um: "unat m = unat b + (unat e - unat b) div 2"
      unfolding m_def using \<open>b \<le> e\<close> by (rule unat_mid)
    have big: "2 \<le> unat (e - b)"
      using False \<open>threshold \<noteq> 0\<close> by unat_arith
    have sz: "unat (e - b) = unat e - unat b"
      using \<open>b \<le> e\<close> by (rule unat_span)
    have "unat (m - b) < unat (e - b)"
      using big sz um bm by (simp add: unat_span)
    then have L: "\<exists>y. merge_sort os a b m threshold = Some y" for a
      using \<open>threshold \<noteq> 0\<close> bm by (rule less.hyps)
    have "unat (e - m) < unat (e - b)"
      using big sz um me by (simp add: unat_span)
    then have R: "\<exists>y. merge_sort os a m e threshold = Some y" for a
      using \<open>threshold \<noteq> 0\<close> me by (rule less.hyps)
    have left: "\<exists>c. (case child_signal os b m of
                 Some sig \<Rightarrow> Some (Signaled sig, arr, Aborted b m)
               | None \<Rightarrow>
                   Option.bind (merge_sort os arr b m threshold)
                     (\<lambda>outcome. Some (child_exit arr b m outcome))) = Some c"
      using L [of arr] by (auto split: option.splits) (metis prod_cases3)
    have right: "\<exists>c. (case child_signal os m e of
                 Some sig \<Rightarrow> Some (Signaled sig, a, Aborted m e)
               | None \<Rightarrow>
                   Option.bind (merge_sort os a m e threshold)
                     (\<lambda>outcome. Some (child_exit a m e outcome))) = Some c" for a
      using R [of a] by (auto split: option.splits) (metis prod_cases3)
    from left obtain ls a1 lt where l: "(case child_signal os b m of
                 Some sig \<Rightarrow> Some (Signaled sig, arr, Aborted b m)
               | None \<Rightarrow>
                   Option.bind (merge_sort os arr b m threshold)
                     (\<lambda>outcome. Some (child_exit arr b m outcome))) = Some (ls, a1, lt)"
      by (metis prod_cases3)
    from right [of a1] obtain rs a2 rt where r: "(case child_signal os m e of
                 Some sig \<Rightarrow> Some (Signaled sig, a1, Aborted m e)
               | None \<Rightarrow>
                   Option.bind (merge_sort os a1 m e threshold)
                     (\<lambda>outcome. Some (child_exit a1 m e outcome))) = Some (rs, a2, rt)"
      by (metis prod_cases3)
    show ?thesis
      unfolding m_def [symmetric]
      by (subst merge_sort.simps, unfold Let_def m_def [symmetric])
         (simp add: l r split: sum.splits option.splits)
  qed
qed


lemma no_child_killedD: "no_child_killed os \<Longrightarrow> child_signal os b e = None"
  by (simp add: no_child_killed_def)

lemma undisturbed_no_child_killed: "undisturbed os \<Longrightarrow> no_child_killed os"
  by (simp add: undisturbed_def no_child_killed_def)

lemma wait_exited_nonzero:
  "code \<noteq> 0 \<Longrightarrow>
   wait_for_sort_process (Some (Exited code)) = fatal ''Error: Child process exited with error''"
  by (simp add: wait_for_sort_process_def WIFEXITED_def WEXITSTATUS_def)

lemma child_exit_Fatal [simp]:
  "child_exit arr b e (Inl (Fatal msg)) = (Exited 1, arr, Aborted b e)"
  by (simp add: child_exit_def)

lemma merge_sort_outcome:
  assumes "merge_sort os arr b e threshold = Some y"
  shows "b \<le> e \<Longrightarrow> unat e \<le> length arr \<Longrightarrow> length arr < 2 ^ 61 \<Longrightarrow> no_child_killed os \<Longrightarrow>
     y \<noteq> Inl AssertionFailed \<and>
     (\<forall>a tree. y = Inr (a, tree) \<longrightarrow>
        a = seq_sort arr b e \<and> span tree = (b, e) \<and> call_tree_inv threshold tree) \<and>
     (undisturbed os \<longrightarrow> (\<exists>a tree. y = Inr (a, tree)))"
  using assms
proof (induction os arr b e threshold y
    rule: merge_sort.raw_induct [rotated 1, consumes 1, case_names step])
  case (step ms os arr b e threshold y)
  note valid = \<open>b \<le> e\<close> \<open>unat e \<le> length arr\<close> \<open>length arr < 2 ^ 61\<close>
  note ns = no_child_killedD [OF \<open>no_child_killed os\<close>]
  have failed: ?case if "y = Inl (Fatal msg)" "\<not> undisturbed os" for msg
    using that by simp
  show ?case
  proof (cases "e - b \<le> threshold")
    case True
    with step(2) valid show ?thesis by (auto simp: Let_def)
  next
    case False
    define m where "m = b + (e - b) div 2"
    have bm: "b \<le> m" and me: "m \<le> e"
      unfolding m_def using valid(1) by (rule mid_bounds)+
    have m_len: "unat m \<le> length arr"
      using me valid(2) by (simp add: word_le_nat_alt)
    note body = step(2) [unfolded Let_def, folded m_def]
    show ?thesis
    proof (cases "fork_fails os b m \<or> fork_fails os m e")
      case True
      with body False valid(1) have "y = Inl (Fatal (''Error: Error: fork failed to start a new process'' @ [CHR 0x0A]))"
        by (auto simp: fatal_def split: if_splits)
      moreover from True have "\<not> undisturbed os"
        by (auto simp: undisturbed_def)
      ultimately show ?thesis by (rule failed)
    next
      case forked: False
      with body False valid(1) obtain l where l: "ms os arr b m threshold = Some l"
        by (auto simp: ns split: Option.bind_splits)
      note L = step(1) [OF l bm m_len valid(3) \<open>no_child_killed os\<close>]
      show ?thesis
      proof (cases l)
        case (Inl err)
        with L obtain msg where "err = Fatal msg"
          by (cases err) auto
        with body False valid(1) forked l Inl
        have "y = fatal ''Error: Child process exited with error''"
          by (auto simp: ns wait_exited_nonzero fatal_def)
        moreover from L Inl have "\<not> undisturbed os" by auto
        ultimately show ?thesis
          unfolding fatal_def by (rule failed)
      next
        case (Inr res)
        with L obtain lt where lt: "l = Inr (seq_sort arr b m, lt)" "span lt = (b, m)"
          "call_tree_inv threshold lt"
          by (cases res) auto
        let ?a1 = "seq_sort arr b m"
        have len1: "length ?a1 = length arr"
          using bm m_len by (rule length_seq_sort)
        from body False valid(1) forked l lt(1) obtain r where r: "ms os ?a1 m e threshold = Some r"
          by (auto simp: ns split: Option.bind_splits)
        have v1: "unat e \<le> length ?a1" "length ?a1 < 2 ^ 61"
          using valid(2,3) len1 by simp_all
        note R = step(1) [OF r me v1 \<open>no_child_killed os\<close>]
        show ?thesis
        proof (cases r)
          case (Inl err)
          with R obtain msg where "err = Fatal msg"
            by (cases err) auto
          with body False valid(1) forked l lt(1) r Inl
          have "y = fatal ''Error: Child process exited with error''"
            by (auto simp: ns wait_exited_nonzero fatal_def)
          moreover from R Inl have "\<not> undisturbed os" by auto
          ultimately show ?thesis
            unfolding fatal_def by (rule failed)
        next
          case (Inr res')
          with R obtain rt where rt: "r = Inr (seq_sort ?a1 m e, rt)" "span rt = (m, e)"
            "call_tree_inv threshold rt"
            by (cases res') auto
          show ?thesis
          proof (cases "malloc os ((e - b) * 8)")
            case None
            with body False valid(1) forked l lt(1) r rt(1)
            have "y = fatal ''malloc() failed''"
              by (auto simp: ns fatal_def)
            moreover from None have "\<not> undisturbed os"
              by (auto simp: undisturbed_def malloc_def split: if_splits)
            ultimately show ?thesis
              unfolding fatal_def by (rule failed)
          next
            case (Some tmp)
            have "unat (e - b) < 2 ^ 61"
              using valid by (simp add: unat_span)
            with Some have "length tmp = unat (e - b)"
              by (rule length_malloc)
            then have buf: "unat e - unat b \<le> length tmp"
              using valid(1) by (simp add: unat_span)
            from body False valid(1) forked l lt(1) r rt(1) Some
            have "y = Inr (copy_back (seq_sort ?a1 m e) b (e - b) 0
                        (merge (seq_sort ?a1 m e) b m e tmp), Split b e lt rt)"
              by (auto simp: ns)
            then have "y = Inr (seq_sort arr b e, Split b e lt rt)"
              unfolding m_def using valid(1,2) buf by (simp only: sorted_halves_merge)
            with lt rt False valid(1) show ?thesis
              by (simp add: m_def)
          qed
        qed
      qed
    qed
  qed
qed

lemma no_child_killed_quiet_os: "no_child_killed quiet_os"
  by (simp add: no_child_killed_def quiet_os_def)

lemma merge_sort_returned:
  assumes "merge_sort os arr b e threshold = Some (Inr (a, tree))"
    and "b \<le> e" "unat e \<le> length arr" "length arr < 2 ^ 61" "no_child_killed os"
  shows "a = seq_sort arr b e" and "span tree = (b, e)" and "call_tree_inv threshold tree"
  using merge_sort_outcome [OF assms] by simp_all

lemma merge_sort_partial:
  assumes "merge_sort os arr b e threshold = Some y"
    and "b \<le> e" "unat e \<le> length arr" "length arr < 2 ^ 61" "undisturbed os"
  shows "\<exists>tree. y = Inr (seq_sort arr b e, tree) \<and> span tree = (b, e) \<and> call_tree_inv threshold tree"
  using merge_sort_outcome [OF assms(1-4) undisturbed_no_child_killed [OF assms(5)]] assms(5)
  by auto

lemma merge_sort_zero_aux:
  assumes "merge_sort os arr b e threshold = Some y"
  shows "threshold = 0 \<Longrightarrow> b \<le> e \<Longrightarrow> undisturbed os \<Longrightarrow> b = e \<and> (\<exists>a t. y = Inr (a, t))"
  using assms
proof (induction os arr b e threshold y
    rule: merge_sort.raw_induct [rotated 1, consumes 1, case_names step])
  case (step ms os arr b e threshold y)
  note env = undisturbedD [OF \<open>undisturbed os\<close>]
  show ?case
  proof (cases "b = e")
    case True
    with step(2,3,4) show ?thesis by auto
  next
    case False
    with \<open>b \<le> e\<close> have lt: "b < e" by simp
    then have nz: "e - b \<noteq> 0" by simp
    define mid where "mid = b + (e - b) div 2"
    have mid_le: "b \<le> mid" "mid \<le> e"
      unfolding mid_def using lt by unat_arith+
    note body = step(2) [unfolded Let_def, folded mid_def]
    from body nz \<open>threshold = 0\<close> \<open>b \<le> e\<close>
    obtain l where l: "ms os arr b mid 0 = Some l"
      by (auto simp: env split: if_splits Option.bind_splits)
    from step(1) [OF l refl mid_le(1) \<open>undisturbed os\<close>]
    obtain a t where bm: "b = mid" and ly: "l = Inr (a, t)" by auto
    from body nz \<open>threshold = 0\<close> \<open>b \<le> e\<close> l ly
    obtain r where r: "ms os a mid e 0 = Some r"
      by (auto simp: env split: if_splits Option.bind_splits)
    from step(1) [OF r refl mid_le(2) \<open>undisturbed os\<close>] have "mid = e" by simp
    with bm False show ?thesis by simp
  qed
qed

lemma merge_sort_example:
  "merge_sort quiet_os [3, 1, 2] 0 3 1
     = Some (Inr ([1, 2, 3], Split 0 3 (SeqSort 0 1) (Split 1 3 (SeqSort 1 2) (SeqSort 2 3))))"
  by code_simp

lemma merge_sort_total:
  assumes "threshold \<noteq> 0" "b \<le> e" "unat e \<le> length arr" "length arr < 2 ^ 61"
    "undisturbed os"
  shows "\<exists>tree. merge_sort os arr b e threshold = Some (Inr (seq_sort arr b e, tree))
           \<and> span tree = (b, e) \<and> call_tree_inv threshold tree"
proof -
  from merge_sort_ends [OF assms(1,2)]
  obtain y where y: "merge_sort os arr b e threshold = Some y" ..
  from merge_sort_partial [OF y assms(2-)] y show ?thesis by auto
qed

lemma ascending_nth:
  "ascending xs \<longleftrightarrow> (\<forall>i. i + 1 < length xs \<longrightarrow> sint (xs ! i) \<le> sint (xs ! (i + 1)))"
  by (simp add: ascending_def sorted_iff_nth_Suc)

lemma segment_nth:
  "b \<le> e \<Longrightarrow> unat e \<le> length arr \<Longrightarrow> i < unat e - unat b \<Longrightarrow> segment arr b e ! i = arr ! (unat b + i)"
  by (simp add: segment_def seg_def)

lemma length_segment: "unat e \<le> length arr \<Longrightarrow> length (segment arr b e) = unat e - unat b"
  by (simp add: segment_def length_seg)

lemma segment_seq_sort:
  assumes "b \<le> e" "unat e \<le> length arr"
  shows "segment (seq_sort arr b e) b e = qsort compare_i64 (segment arr b e)"
proof -
  have "unat b \<le> unat e" using assms(1) by (simp add: word_le_nat_alt)
  then show ?thesis
    using assms unfolding seq_sort_eq [OF assms(1)] segment_def
    by (intro seg_sandwich) (simp_all add: length_qsort length_seg)
qed

lemma seq_sort_sorted:
  assumes "b \<le> e" "unat e \<le> length arr"
  shows "ascending (segment (seq_sort arr b e) b e)"
    and "mset (segment (seq_sort arr b e) b e) = mset (segment arr b e)"
  using assms by (simp_all add: segment_seq_sort ascending_qsort mset_qsort)

lemma ascending_span_nth:
  assumes "b \<le> e" "unat e \<le> length arr" "ascending (segment arr b e)"
    "unat b \<le> i" "i + 1 < unat e"
  shows "sint (arr ! i) \<le> sint (arr ! (i + 1))"
proof -
  let ?k = "i - unat b"
  have k: "?k + 1 < length (segment arr b e)"
    using assms by (simp add: length_segment)
  with assms(3) have "sint (segment arr b e ! ?k) \<le> sint (segment arr b e ! (?k + 1))"
    by (simp add: ascending_nth)
  moreover have "segment arr b e ! ?k = arr ! i" "segment arr b e ! (?k + 1) = arr ! (i + 1)"
    using assms by (simp_all add: segment_nth)
  ultimately show ?thesis by simp
qed


lemma seq_sort_example: "seq_sort [3, 1, 2] 0 3 = [1, 2, 3]"
  by code_simp

lemma span_parts:
  "i \<le> j \<Longrightarrow> j \<le> length xs \<Longrightarrow> take i xs @ seg xs i j @ drop j xs = xs"
proof -
  assume "i \<le> j" "j \<le> length xs"
  have "take i xs @ seg xs i j @ drop j xs = take i xs @ seg xs i j @ seg xs j (length xs)"
    by (simp add: seg_def)
  also have "\<dots> = take i xs @ seg xs i (length xs)"
    using \<open>i \<le> j\<close> \<open>j \<le> length xs\<close> by (simp add: seg_append)
  also have "\<dots> = xs"
    by (simp add: seg_def)
  finally show ?thesis .
qed

lemma seq_sort_ascending_id:
  assumes "b \<le> e" "unat e \<le> length arr" "ascending (segment arr b e)"
  shows "seq_sort arr b e = arr"
proof -
  have "qsort compare_i64 (segment arr b e) = segment arr b e"
    using assms(3) by (intro ascending_unique ascending_qsort mset_qsort)
  moreover have "unat b \<le> unat e"
    using assms(1) by (simp add: word_le_nat_alt)
  ultimately show ?thesis
    using assms(2) by (simp add: seq_sort_eq [OF assms(1)] segment_def span_parts)
qed

lemma outside_nth:
  assumes "length xs = j - i" "i \<le> j" "j \<le> length arr" "k < i \<or> j \<le> k"
  shows "(take i arr @ xs @ drop j arr) ! k = arr ! k"
proof (cases "k < i")
  case True
  with assms show ?thesis by (simp add: nth_append)
next
  case False
  with assms have jk: "j \<le> k" by simp
  then have "\<not> k < length (take i arr)" "\<not> k - length (take i arr) < length xs"
    using assms(1-3) by simp_all
  then have "(take i arr @ xs @ drop j arr) ! k = drop j arr ! (k - length (take i arr) - length xs)"
    by (simp only: nth_append if_False)
  also have "k - length (take i arr) - length xs = k - j"
    using assms(1-3) jk by simp
  also have "drop j arr ! (k - j) = arr ! k"
    using assms(3) jk by simp
  finally show ?thesis .
qed

lemma seq_sort_frame:
  assumes "b \<le> e" "unat e \<le> length arr" "k < unat b \<or> unat e \<le> k"
  shows "seq_sort arr b e ! k = arr ! k"
proof -
  have "unat b \<le> unat e"
    using assms(1) by (simp add: word_le_nat_alt)
  then show ?thesis
    unfolding seq_sort_eq [OF assms(1)] using assms(2,3)
    by (intro outside_nth) (simp_all add: length_qsort length_seg)
qed

lemma ascending_example: "ascending (segment [7, - 2, 0, 4, 1] 1 4)"
  by (simp add: ascending_def segment_def seg_def)

lemma call_tree_inv_facts:
  "call_tree_inv threshold tree \<Longrightarrow>
     \<not> aborted tree \<and>
     (\<forall>(lb, le) \<in> set (leaves tree). lb \<le> le \<and> le - lb \<le> threshold) \<and>
     (\<forall>(pb, pe, l, r) \<in> set (splits tree). pb \<le> pe \<and> threshold < pe - pb \<and>
        span l = (pb, pb + (pe - pb) div 2) \<and> span r = (pb + (pe - pb) div 2, pe))"
  by (induction tree) auto

lemma wait_fatal:
  "wait_for_sort_process w = Inl err \<Longrightarrow> \<exists>msg. err = Fatal msg"
  by (auto simp: wait_for_sort_process_def fatal_def split: option.splits if_splits)

lemma merge_sort_assert_fires:
  "e < b \<Longrightarrow> merge_sort os arr b e threshold = Some (Inl AssertionFailed)"
  by (subst merge_sort.simps) (simp add: not_le)

lemma merge_sort_no_assert:
  assumes "b \<le> e"
  shows "merge_sort os arr b e threshold \<noteq> Some (Inl AssertionFailed)"
proof
  assume "merge_sort os arr b e threshold = Some (Inl AssertionFailed)"
  then show False
    using assms
    by (subst (asm) merge_sort.simps, unfold Let_def)
       (auto simp: fatal_def split: if_splits Option.bind_splits prod.splits sum.splits
          option.splits dest: wait_fatal)
qed

lemma seg_of_seg:
  assumes "i \<le> j" "j \<le> k"
  shows "seg xs i j = take (j - i) (seg xs i k)" and "seg xs j k = drop (j - i) (seg xs i k)"
proof -
  have "min (j - i) (k - i) = j - i" "k - i - (j - i) = k - j" "j - i + i = j"
    using assms by simp_all
  then show "seg xs i j = take (j - i) (seg xs i k)"
    and "seg xs j k = drop (j - i) (seg xs i k)"
    by (simp_all add: seg_def drop_take)
qed

lemma merge_reads_span:
  assumes "b \<le> m" "m \<le> e" "unat e \<le> length arr" "unat e \<le> length arr2"
    "unat e - unat b \<le> length tmp" "segment arr2 b e = segment arr b e"
  shows "merge arr2 b m e tmp = merge arr b m e tmp"
proof -
  have le: "unat b \<le> unat m" "unat m \<le> unat e"
    using assms(1,2) by (simp_all add: word_le_nat_alt)
  have "seg arr2 (unat b) (unat m) = seg arr (unat b) (unat m)"
    "seg arr2 (unat m) (unat e) = seg arr (unat m) (unat e)"
    using assms(6) unfolding segment_def by (simp_all only: seg_of_seg [OF le])
  then show ?thesis
    using assms(1-5) by (simp add: merge_eq)
qed

lemma length_merge_lists: "length (merge_lists xs ys) = length xs + length ys"
  using mset_merge_lists [of xs ys, THEN arg_cong, of size] by simp

lemma merge_footprint:
  assumes "b \<le> m" "m \<le> e" "unat e \<le> length arr" "unat e - unat b \<le> length tmp"
  shows "length (merge arr b m e tmp) = length tmp"
    and "take (unat e - unat b) (merge arr b m e tmp) = merge_lists (segment arr b m) (segment arr m e)"
    and "drop (unat e - unat b) (merge arr b m e tmp) = drop (unat e - unat b) tmp"
proof -
  have le: "unat b \<le> unat m" "unat m \<le> unat e"
    using assms(1,2) by (simp_all add: word_le_nat_alt)
  let ?ml = "merge_lists (seg arr (unat b) (unat m)) (seg arr (unat m) (unat e))"
  have len: "length ?ml = unat e - unat b"
    using le assms(3) by (simp add: length_merge_lists length_seg)
  have eq: "merge arr b m e tmp = ?ml @ drop (unat e - unat b) tmp"
    using assms by (rule merge_eq)
  show "length (merge arr b m e tmp) = length tmp"
    using assms(4) by (simp add: eq len del: length_append) (simp add: len)
  show "take (unat e - unat b) (merge arr b m e tmp) = merge_lists (segment arr b m) (segment arr m e)"
    by (simp add: eq len segment_def)
  show "drop (unat e - unat b) (merge arr b m e tmp) = drop (unat e - unat b) tmp"
    by (simp add: eq len)
qed

lemma copy_back_frame:
  assumes "b \<le> e" "unat e \<le> length arr" "unat e - unat b \<le> length tmp"
  shows "length (copy_back arr b (e - b) 0 tmp) = length arr"
    and "k < unat b \<or> unat e \<le> k \<Longrightarrow> copy_back arr b (e - b) 0 tmp ! k = arr ! k"
    and "segment (copy_back arr b (e - b) 0 tmp) b e = take (unat e - unat b) tmp"
proof -
  have le: "unat b \<le> unat e"
    using assms(1) by (simp add: word_le_nat_alt)
  have n: "unat (e - b) = unat e - unat b"
    using assms(1) by (rule unat_span)
  have "copy_back arr b (e - b) 0 tmp
      = take (unat b + unat (0 :: size_t)) arr @ seg tmp (unat (0 :: size_t)) (unat (e - b))
        @ drop (unat b + unat (e - b)) arr"
    using le assms(2,3) unsigned_less [of e, where 'a = nat]
    by (intro copy_back_eq) (simp_all add: n)
  then have eq: "copy_back arr b (e - b) 0 tmp
      = take (unat b) arr @ take (unat e - unat b) tmp @ drop (unat e) arr"
    using le by (simp add: n seg_def)
  have len: "length (take (unat e - unat b) tmp) = unat e - unat b"
    using assms(3) by simp
  show "length (copy_back arr b (e - b) 0 tmp) = length arr"
    unfolding eq using le assms(2,3) by simp
  show "copy_back arr b (e - b) 0 tmp ! k = arr ! k" if "k < unat b \<or> unat e \<le> k"
    unfolding eq using len le assms(2) that by (rule outside_nth)
  show "segment (copy_back arr b (e - b) 0 tmp) b e = take (unat e - unat b) tmp"
    unfolding eq segment_def using le assms(2) len
    by (intro seg_sandwich) simp_all
qed

lemma merge_sort_inner_example:
  "merge_sort quiet_os [7, 3, 1, 2, 9] 1 4 1
     = Some (Inr ([7, 1, 2, 3, 9], Split 1 4 (SeqSort 1 2) (Split 2 4 (SeqSort 2 3) (SeqSort 3 4))))"
  by code_simp

lemma seq_sort_inner_example: "seq_sort [7, 3, 1, 2, 9] 1 4 = [7, 1, 2, 3, 9]"
  by code_simp

lemma malloc_example: "malloc quiet_os ((4 - 1) * 8) = Some [0, 0, 0]"
  by code_simp

lemma seq_sort_empty: "seq_sort arr b b = arr"
  by (simp add: seq_sort_def qsort_def)

lemma merge_sort_small:
  "b \<le> e \<Longrightarrow> e - b \<le> threshold \<Longrightarrow>
   merge_sort os arr b e threshold = Some (Inr (seq_sort arr b e, SeqSort b e))"
  by (subst merge_sort.simps) (simp add: Let_def)

lemma split_sizes:
  assumes "(b :: size_t) \<le> e"
  defines "m \<equiv> b + (e - b) div 2"
  shows "b \<le> m" and "m \<le> e"
    and "unat (m - b) = unat (e - b) div 2"
    and "unat (e - m) = (unat (e - b) + 1) div 2"
    and "{unat b..<unat m} \<inter> {unat m..<unat e} = {}"
    and "{unat b..<unat m} \<union> {unat m..<unat e} = {unat b..<unat e}"
proof -
  show bm: "b \<le> m" and me: "m \<le> e"
    unfolding m_def using assms(1) by (rule mid_bounds)+
  have um: "unat m = unat b + (unat e - unat b) div 2"
    unfolding m_def using assms(1) by (rule unat_mid)
  have le: "unat b \<le> unat e"
    using assms(1) by (simp add: word_le_nat_alt)
  show "unat (m - b) = unat (e - b) div 2"
    using um by (simp add: unat_span [OF bm] unat_span [OF assms(1)])
  show "unat (e - m) = (unat (e - b) + 1) div 2"
    using um le by (simp add: unat_span [OF me] unat_span [OF assms(1)])
  show "{unat b..<unat m} \<inter> {unat m..<unat e} = {}"
    by auto
  show "{unat b..<unat m} \<union> {unat m..<unat e} = {unat b..<unat e}"
    using um le by auto
qed

lemma merge_sort_boundary_examples:
  "merge_sort quiet_os [3, 1, 2] 0 3 2
     = Some (Inr ([1, 2, 3], Split 0 3 (SeqSort 0 1) (SeqSort 1 3)))"
  "merge_sort quiet_os [3, 1, 2] 1 1 0 = Some (Inr ([3, 1, 2], SeqSort 1 1))"
  by code_simp+

lemma merge_loop_take_left:
  "left < endl \<Longrightarrow> endr \<le> right \<or> sint (arr ! left) \<le> sint (arr ! right) \<Longrightarrow>
   merge_loop arr endl endr left right dst tmp
     = merge_loop arr endl endr (left + 1) right (dst + 1) (tmp[dst := arr ! left])"
  by (subst merge_loop_step) (auto simp: compare_i64_le)

lemma merge_loop_take_right:
  "right < endr \<Longrightarrow> endl \<le> left \<or> sint (arr ! right) < sint (arr ! left) \<Longrightarrow>
   merge_loop arr endl endr left right dst tmp
     = merge_loop arr endl endr left (right + 1) (dst + 1) (tmp[dst := arr ! right])"
  by (subst merge_loop_step) (auto simp: compare_i64_le)

lemma merge_loop_finished:
  "endl \<le> left \<Longrightarrow> endr \<le> right \<Longrightarrow> merge_loop arr endl endr left right dst tmp = tmp"
  by (subst merge_loop_step) simp

lemma merge_copy_back_spec:
  assumes "b \<le> m" "m \<le> e" "unat e \<le> length arr" "unat e - unat b \<le> length tmp"
  defines "res \<equiv> copy_back arr b (e - b) 0 (merge arr b m e tmp)"
  shows "length res = length arr"
    and "segment res b e = merge_lists (segment arr b m) (segment arr m e)"
    and "mset (segment res b e) = mset (segment arr b e)"
    and "k < unat b \<or> unat e \<le> k \<Longrightarrow> res ! k = arr ! k"
proof -
  have le: "unat b \<le> unat m" "unat m \<le> unat e" "unat b \<le> unat e"
    using assms(1,2) by (simp_all add: word_le_nat_alt)
  let ?ml = "merge_lists (seg arr (unat b) (unat m)) (seg arr (unat m) (unat e))"
  have len: "length ?ml = unat e - unat b"
    using le assms(3) by (simp add: length_merge_lists length_seg)
  have eq: "res = take (unat b) arr @ ?ml @ drop (unat e) arr"
    unfolding res_def using assms(1-4) by (rule merge_copy_back_eq)
  show "length res = length arr"
    unfolding eq using le assms(3) by (simp add: len)
  show s: "segment res b e = merge_lists (segment arr b m) (segment arr m e)"
    unfolding eq segment_def using le assms(3) len
    by (intro seg_sandwich) simp_all
  show "mset (segment res b e) = mset (segment arr b e)"
    unfolding s using le
    by (simp add: mset_merge_lists segment_def flip: seg_append [of "unat b" "unat m" "unat e"])
  show "res ! k = arr ! k" if "k < unat b \<or> unat e \<le> k"
    unfolding eq using len le(3) assms(3) that by (rule outside_nth)
qed

lemma merge_empty_half:
  assumes "b \<le> m" "m \<le> e" "unat e \<le> length arr" "unat e - unat b \<le> length tmp"
    and "b = m \<or> m = e"
  shows "copy_back arr b (e - b) 0 (merge arr b m e tmp) = arr"
proof -
  have le: "unat b \<le> unat m" "unat m \<le> unat e"
    using assms(1,2) by (simp_all add: word_le_nat_alt)
  have "merge_lists (seg arr (unat b) (unat m)) (seg arr (unat m) (unat e))
      = seg arr (unat b) (unat e)"
    using assms(5) by auto
  then show ?thesis
    using le assms(3) by (simp add: merge_copy_back_eq [OF assms(1-4)] span_parts)
qed

lemma merge_spec_example:
  "copy_back [1, 4, 7, 2, 2, 9] 0 (6 - 0) 0 (merge [1, 4, 7, 2, 2, 9] 0 3 6 [0, 0, 0, 0, 0, 0])
     = [1, 2, 2, 4, 7, 9]"
  by code_simp

lemma merge_spec_hyps:
  "ascending (segment [1, 4, 7, 2, 2, 9] 0 3)" "ascending (segment [1, 4, 7, 2, 2, 9] 3 6)"
  by (simp_all add: ascending_def segment_def seg_def)

lemma merge_buffer_irrelevant:
  assumes "b \<le> m" "m \<le> e" "unat e \<le> length arr"
    and "unat e - unat b \<le> length tmp" "unat e - unat b \<le> length tmp'"
  shows "copy_back arr b (e - b) 0 (merge arr b m e tmp)
       = copy_back arr b (e - b) 0 (merge arr b m e tmp')"
  by (simp only: merge_copy_back_eq [OF assms(1-4)] merge_copy_back_eq [OF assms(1-3,5)])

lemma merge_sort_fork_failure:
  assumes "b \<le> e" "threshold < e - b"
    and "fork_fails os b (b + (e - b) div 2) \<or> fork_fails os (b + (e - b) div 2) e"
  shows "merge_sort os arr b e threshold
       = Some (fatal ''Error: fork failed to start a new process'')"
  using assms by (subst merge_sort.simps) (auto simp: Let_def not_le)

lemma call_tree_root:
  assumes "span tree = (b, e)" "call_tree_inv threshold tree"
  shows "e - b \<le> threshold \<Longrightarrow> tree = SeqSort b e"
    and "threshold < e - b \<Longrightarrow> \<exists>l r. tree = Split b e l r"
  using assms by (cases tree; auto)+

lemma merge_sort_zero_diverges:
  assumes "undisturbed os" "b < e"
  shows "merge_sort os arr b e 0 = None"
proof (cases "merge_sort os arr b e 0")
  case None
  then show ?thesis .
next
  case (Some y)
  from merge_sort_zero_aux [OF Some refl less_imp_le [OF assms(2)] assms(1)] assms(2)
  show ?thesis by simp
qed

subsection \<open>Runs in which no child is terminated by a signal\<close>

text \<open>
  Let the span \<open>[begin, end)\<close> with \<open>begin \<le> end\<close> lie inside the array, in a run in which no
  child is terminated by a signal. A call of \<open>merge_sort\<close> that returns has left the length
  of the array unchanged, and the span in ascending order and with the multiset of values
  it had before the call. Whenever the threshold is not 0 the call ends, and in an
  undisturbed run it ends by returning.
\<close>

lemma merge_sort_sorts_unless_killed:
  assumes "begin \<le> end" and "unat end \<le> length arr" and "length arr < 2 ^ 61"
    and "no_child_killed os"
  shows "(\<forall>arr' tree. merge_sort os arr begin end threshold = Some (Inr (arr', tree)) \<longrightarrow>
            length arr' = length arr \<and>
            (\<forall>i. unat begin \<le> i \<and> i + 1 < unat end \<longrightarrow> sint (arr' ! i) \<le> sint (arr' ! (i + 1))) \<and>
            ascending (segment arr' begin end) \<and>
            mset (segment arr' begin end) = mset (segment arr begin end)) \<and>
         (threshold \<noteq> 0 \<longrightarrow> (\<exists>y. merge_sort os arr begin end threshold = Some y)) \<and>
         (threshold \<noteq> 0 \<and> undisturbed os \<longrightarrow>
            (\<exists>arr' tree. merge_sort os arr begin end threshold = Some (Inr (arr', tree))))"
proof (intro conjI impI allI)
  fix arr' tree
  assume "merge_sort os arr begin end threshold = Some (Inr (arr', tree))"
  from merge_sort_returned(1) [OF this assms]
  have res: "arr' = seq_sort arr begin end" .
  show "length arr' = length arr"
    unfolding res using assms(1,2) by (rule length_seq_sort)
  show asc: "ascending (segment arr' begin end)"
    unfolding res using assms(1,2) by (rule seq_sort_sorted)
  show "mset (segment arr' begin end) = mset (segment arr begin end)"
    unfolding res using assms(1,2) by (rule seq_sort_sorted)
  have len': "unat end \<le> length arr'"
    unfolding res using assms(1,2) by (simp add: length_seq_sort)
  show "sint (arr' ! i) \<le> sint (arr' ! (i + 1))"
    if "unat begin \<le> i \<and> i + 1 < unat end" for i
    using assms(1) len' asc that [THEN conjunct1] that [THEN conjunct2]
    by (rule ascending_span_nth)
next
  assume "threshold \<noteq> 0"
  then show "\<exists>y. merge_sort os arr begin end threshold = Some y"
    using assms(1) by (rule merge_sort_ends)
next
  assume "threshold \<noteq> 0 \<and> undisturbed os"
  then have "threshold \<noteq> 0" "undisturbed os" by simp_all
  from merge_sort_total [OF this(1) assms(1-3) this(2)]
  show "\<exists>arr' tree. merge_sort os arr begin end threshold = Some (Inr (arr', tree))"
    by blast
qed

text \<open>
  In such a run the array that a call of \<open>merge_sort\<close> returns is the array that the
  sequential sort \<open>seq_sort\<close> produces, whatever the threshold; so any two calls that
  return, with whatever thresholds, return the same array.
\<close>

lemma merge_sort_agrees_unless_killed:
  assumes "begin \<le> end" and "unat end \<le> length arr" and "length arr < 2 ^ 61"
    and "no_child_killed os"
  shows "(\<forall>arr' tree. merge_sort os arr begin end threshold = Some (Inr (arr', tree)) \<longrightarrow>
            arr' = seq_sort arr begin end) \<and>
         (\<forall>threshold' arr1 tree1 arr2 tree2.
            merge_sort os arr begin end threshold = Some (Inr (arr1, tree1)) \<and>
            merge_sort os arr begin end threshold' = Some (Inr (arr2, tree2)) \<longrightarrow>
            arr1 = arr2) \<and>
         (threshold \<noteq> 0 \<and> undisturbed os \<longrightarrow>
            (\<exists>tree. merge_sort os arr begin end threshold
               = Some (Inr (seq_sort arr begin end, tree))))"
proof (intro conjI impI allI)
  fix arr' tree
  assume "merge_sort os arr begin end threshold = Some (Inr (arr', tree))"
  then show "arr' = seq_sort arr begin end"
    using assms by (rule merge_sort_returned(1))
next
  fix threshold' arr1 tree1 arr2 tree2
  assume both: "merge_sort os arr begin end threshold = Some (Inr (arr1, tree1)) \<and>
    merge_sort os arr begin end threshold' = Some (Inr (arr2, tree2))"
  from merge_sort_returned(1) [OF both [THEN conjunct1] assms]
    merge_sort_returned(1) [OF both [THEN conjunct2] assms]
  show "arr1 = arr2" by simp
next
  assume "threshold \<noteq> 0 \<and> undisturbed os"
  then have "threshold \<noteq> 0" "undisturbed os" by simp_all
  from merge_sort_total [OF this(1) assms(1-3) this(2)]
  show "\<exists>tree. merge_sort os arr begin end threshold = Some (Inr (seq_sort arr begin end, tree))"
    by blast
qed

section \<open>The claims\<close>

subsection \<open>C1: merge_sort sorts its span and keeps its values\<close>

text \<open>
  Claim C1 says that after \<open>merge_sort\<close> returns, the span is in ascending order and holds
  the multiset of values it had before the call. Lemma \<open>merge_sort_sorts_unless_killed\<close>
  shows it for the runs in which no child is terminated by a signal. A child that a signal
  terminates has not sorted its half, and \<open>wait_for_sort_process\<close> does not notice it
  (\<^verbatim>\<open>WIFEXITED(status)\<close> is false, so the test for a failed child is false): the parent
  merges the two halves and returns. When the child for \<open>[0, 2)\<close> of the array 4, 3, 2, 1 is
  killed, the call with threshold 2 returns the array 1, 2, 4, 3, which holds 4 at index 2
  and 3 at index 3: the span \<open>[0, 4)\<close> is not in ascending order.
\<close>

theorem merge_sort_returns_unsorted:
  "merge_sort
     (quiet_os\<lparr>child_signal := (\<lambda>b e. if b = 0 \<and> e = 2 then Some 9 else None)\<rparr>)
     [4, 3, 2, 1] 0 4 2
     = Some (Inr ([1, 2, 4, 3], Split 0 4 (Aborted 0 2) (SeqSort 2 4))) \<and>
   sint ([1, 2, 4, 3 :: int64_t] ! 3) < sint ([1, 2, 4, 3 :: int64_t] ! 2) \<and>
   \<not> ascending (segment [1, 2, 4, 3] 0 4)"
  by code_simp

subsection \<open>C2: merging two sorted halves\<close>

text \<open>
  Claim C2. Let \<open>begin \<le> mid \<le> end\<close> lie inside the array, let the buffer have room
  for \<open>end - begin\<close> elements and let \<open>[begin, mid)\<close> and \<open>[mid, end)\<close> each be in
  ascending order. After \<open>merge\<close> and the copy back the span \<open>[begin, end)\<close> is in ascending
  order and holds the multiset of values it held before; it is the list merge of the two
  halves, and the rest of the array is unchanged. A half may be empty, and then the array
  is left as it is. In the loop, while both cursors are inside their halves the left
  element is taken when it is less than or equal to the right one (so the left one wins
  a tie) and the right element otherwise; once a half is used up, every further iteration
  takes the next element of the other half whatever the values are; when both are used up
  the loop ends.
\<close>

theorem merge_then_copy_back:
  assumes "begin \<le> mid" and "mid \<le> end" and "unat end \<le> length arr"
    and "unat end - unat begin \<le> length temparr"
    and "ascending (segment arr begin mid)" and "ascending (segment arr mid end)"
  defines "arr' \<equiv> copy_back arr begin (end - begin) 0 (merge arr begin mid end temparr)"
  shows "length arr' = length arr \<and>
         ascending (segment arr' begin end) \<and>
         mset (segment arr' begin end) = mset (segment arr begin end) \<and>
         segment arr' begin end = merge_lists (segment arr begin mid) (segment arr mid end) \<and>
         (\<forall>i < length arr. i < unat begin \<or> unat end \<le> i \<longrightarrow> arr' ! i = arr ! i) \<and>
         (begin = mid \<or> mid = end \<longrightarrow> arr' = arr) \<and>
         (\<forall>left right dst tmp.
            left < unat mid \<and> right < unat end \<and> sint (arr ! left) \<le> sint (arr ! right) \<longrightarrow>
            merge_loop arr (unat mid) (unat end) left right dst tmp
              = merge_loop arr (unat mid) (unat end) (left + 1) right (dst + 1)
                  (tmp[dst := arr ! left])) \<and>
         (\<forall>left right dst tmp.
            left < unat mid \<and> right < unat end \<and> sint (arr ! right) < sint (arr ! left) \<longrightarrow>
            merge_loop arr (unat mid) (unat end) left right dst tmp
              = merge_loop arr (unat mid) (unat end) left (right + 1) (dst + 1)
                  (tmp[dst := arr ! right])) \<and>
         (\<forall>left right dst tmp.
            unat mid \<le> left \<and> right < unat end \<longrightarrow>
            merge_loop arr (unat mid) (unat end) left right dst tmp
              = merge_loop arr (unat mid) (unat end) left (right + 1) (dst + 1)
                  (tmp[dst := arr ! right])) \<and>
         (\<forall>left right dst tmp.
            left < unat mid \<and> unat end \<le> right \<longrightarrow>
            merge_loop arr (unat mid) (unat end) left right dst tmp
              = merge_loop arr (unat mid) (unat end) (left + 1) right (dst + 1)
                  (tmp[dst := arr ! left])) \<and>
         (\<forall>left right dst tmp.
            unat mid \<le> left \<and> unat end \<le> right \<longrightarrow>
            merge_loop arr (unat mid) (unat end) left right dst tmp = tmp)"
proof -
  note spec = merge_copy_back_spec [OF assms(1-4), folded arr'_def]
  have c1: "length arr' = length arr"
    by (rule spec(1))
  have c4: "segment arr' begin end = merge_lists (segment arr begin mid) (segment arr mid end)"
    by (rule spec(2))
  have c2: "ascending (segment arr' begin end)"
    unfolding c4 using assms(5,6) by (rule ascending_merge_lists)
  have c3: "mset (segment arr' begin end) = mset (segment arr begin end)"
    by (rule spec(3))
  have c5: "\<forall>i < length arr. i < unat begin \<or> unat end \<le> i \<longrightarrow> arr' ! i = arr ! i"
    using spec(4) by blast
  have c6: "begin = mid \<or> mid = end \<longrightarrow> arr' = arr"
    unfolding arr'_def using merge_empty_half [OF assms(1-4)] by blast
  have c7: "\<forall>left right dst tmp.
      left < unat mid \<and> right < unat end \<and> sint (arr ! left) \<le> sint (arr ! right) \<longrightarrow>
      merge_loop arr (unat mid) (unat end) left right dst tmp
        = merge_loop arr (unat mid) (unat end) (left + 1) right (dst + 1)
            (tmp[dst := arr ! left])"
    by (intro allI impI merge_loop_take_left) simp_all
  have c8: "\<forall>left right dst tmp.
      left < unat mid \<and> right < unat end \<and> sint (arr ! right) < sint (arr ! left) \<longrightarrow>
      merge_loop arr (unat mid) (unat end) left right dst tmp
        = merge_loop arr (unat mid) (unat end) left (right + 1) (dst + 1)
            (tmp[dst := arr ! right])"
    by (intro allI impI merge_loop_take_right) simp_all
  have c9: "\<forall>left right dst tmp.
      unat mid \<le> left \<and> right < unat end \<longrightarrow>
      merge_loop arr (unat mid) (unat end) left right dst tmp
        = merge_loop arr (unat mid) (unat end) left (right + 1) (dst + 1)
            (tmp[dst := arr ! right])"
    by (intro allI impI merge_loop_take_right) simp_all
  have c10: "\<forall>left right dst tmp.
      left < unat mid \<and> unat end \<le> right \<longrightarrow>
      merge_loop arr (unat mid) (unat end) left right dst tmp
        = merge_loop arr (unat mid) (unat end) (left + 1) right (dst + 1)
            (tmp[dst := arr ! left])"
    by (intro allI impI merge_loop_take_left) simp_all
  have c11: "\<forall>left right dst tmp.
      unat mid \<le> left \<and> unat end \<le> right \<longrightarrow>
      merge_loop arr (unat mid) (unat end) left right dst tmp = tmp"
    by (intro allI impI merge_loop_finished) simp_all
  from c1 c2 c3 c4 c5 c6 c7 c8 c9 c10 c11 show ?thesis
    by (intro conjI)
qed

theorem merge_then_copy_back_witness:
  "(0 :: size_t) \<le> 3 \<and> (3 :: size_t) \<le> 6 \<and> unat (6 :: size_t) \<le> length [1, 4, 7, 2, 2, 9 :: int64_t] \<and>
   unat (6 :: size_t) - unat (0 :: size_t) \<le> length [0, 0, 0, 0, 0, 0 :: int64_t] \<and>
   ascending (segment [1, 4, 7, 2, 2, 9] 0 3) \<and> ascending (segment [1, 4, 7, 2, 2, 9] 3 6) \<and>
   copy_back [1, 4, 7, 2, 2, 9] 0 (6 - 0) 0 (merge [1, 4, 7, 2, 2, 9] 0 3 6 [0, 0, 0, 0, 0, 0])
     = [1, 2, 2, 4, 7, 9] \<and>
   ascending (segment [1, 2, 2, 4, 7, 9] 0 6) \<and>
   mset (segment [1, 2, 2, 4, 7, 9] 0 6) = mset (segment [1, 4, 7, 2, 2, 9] 0 6)"
proof -
  have h: "(0 :: size_t) \<le> 3" "(3 :: size_t) \<le> 6"
    "unat (6 :: size_t) \<le> length [1, 4, 7, 2, 2, 9 :: int64_t]"
    by simp_all
  have buf: "unat (6 :: size_t) - unat (0 :: size_t) \<le> length [0, 0, 0, 0, 0, 0 :: int64_t]"
    by simp
  note r = merge_then_copy_back [OF h buf merge_spec_hyps, unfolded merge_spec_example]
  from r have "ascending (segment [1, 2, 2, 4, 7, 9] 0 6)"
    and "mset (segment [1, 2, 2, 4, 7, 9] 0 6) = mset (segment [1, 4, 7, 2, 2, 9] 0 6)"
    by blast+
  with h buf merge_spec_hyps merge_spec_example show ?thesis
    by blast
qed

subsection \<open>C3: termination\<close>

text \<open>
  Claim C3 says that \<open>merge_sort\<close> terminates for every span and every threshold. Lemma
  \<open>merge_sort_ends\<close> shows it for every threshold but 0, whatever the operating system
  does. With threshold 0 a span of one element is split into \<open>[begin, begin)\<close> and
  \<open>[begin, end)\<close>: the right child is called with the span of its parent, and in an
  undisturbed run no call on a span that is not empty ever ends (lemma
  \<open>merge_sort_zero_diverges\<close>), here on the array that holds the one element 5.
\<close>

theorem merge_sort_threshold_zero_diverges: "merge_sort quiet_os [5] 0 1 0 = None"
proof (cases "merge_sort quiet_os [5] 0 1 0")
  case None
  then show ?thesis .
next
  case (Some y)
  from merge_sort_zero_aux [OF Some refl _ undisturbed_quiet_os] show ?thesis by simp
qed

subsection \<open>C4: waiting for a child\<close>

text \<open>
  Claim C4 says that \<open>wait_for_sort_process\<close> is fatal exactly when the child did not exit
  with status 0. Lemma \<open>wait_ok_iff\<close> gives what the function does: it is fatal when
  \<^verbatim>\<open>waitpid\<close> fails or the child exited with a nonzero code, and it returns normally for
  a child that a signal terminated, here SIGKILL. The parent then merges a half that
  nobody sorted and returns as after a successful sort: when the child for \<open>[0, 2)\<close> of the
  array 4, 3, 2, 1 is killed, the call returns the array 1, 2, 4, 3.
\<close>

theorem wait_for_sort_process_ignores_signal:
  "wait_for_sort_process (Some (Signaled 9)) = Inr () \<and>
   merge_sort
     (quiet_os\<lparr>child_signal := (\<lambda>b e. if b = 0 \<and> e = 2 then Some 9 else None)\<rparr>)
     [4, 3, 2, 1] 0 4 2
     = Some (Inr ([1, 2, 4, 3], Split 0 4 (Aborted 0 2) (SeqSort 2 4)))"
  by code_simp

subsection \<open>C5: the result does not depend on the threshold\<close>

text \<open>
  Claim C5 says that for a fixed input the final contents are the same for every threshold,
  and are those of the sequential sort. Lemma \<open>merge_sort_agrees_unless_killed\<close> shows that
  every call that returns, in a run in which no child is terminated by a signal, returns
  the array of \<open>seq_sort\<close>. The threshold changes the result in two ways. With threshold 0
  the call on the array 2, 1 never returns, in a run in which nothing fails, while with
  threshold 2 it returns 1, 2 (lemma \<open>merge_sort_zero_diverges\<close>, see C3). And the threshold
  decides which children exist: when the operating system kills the child created for
  \<open>[0, 2)\<close>, the call on the array 4, 3, 2, 1 with threshold 4 creates no child and returns
  1, 2, 3, 4, as \<open>seq_sort\<close> does, and the call with threshold 2 returns 1, 2, 4, 3 (see C4).
\<close>

theorem merge_sort_threshold_changes_result:
  "merge_sort quiet_os [2, 1] 0 2 2 = Some (Inr ([1, 2], SeqSort 0 2)) \<and>
   merge_sort quiet_os [2, 1] 0 2 0 = None \<and>
   seq_sort [4, 3, 2, 1] 0 4 = [1, 2, 3, 4] \<and>
   merge_sort
     (quiet_os\<lparr>child_signal := (\<lambda>b e. if b = 0 \<and> e = 2 then Some 9 else None)\<rparr>)
     [4, 3, 2, 1] 0 4 4
     = Some (Inr ([1, 2, 3, 4], SeqSort 0 4)) \<and>
   merge_sort
     (quiet_os\<lparr>child_signal := (\<lambda>b e. if b = 0 \<and> e = 2 then Some 9 else None)\<rparr>)
     [4, 3, 2, 1] 0 4 2
     = Some (Inr ([1, 2, 4, 3], Split 0 4 (Aborted 0 2) (SeqSort 2 4)))"
proof (intro conjI)
  show "merge_sort quiet_os [2, 1] 0 2 0 = None"
    using undisturbed_quiet_os by (rule merge_sort_zero_diverges) simp
qed code_simp+

subsection \<open>C6: when the sequential path is taken\<close>

text \<open>
  Claim C6. A call with \<open>begin \<le> end\<close> whose size \<open>end - begin\<close> is at most the threshold
  sorts the span with \<open>seq_sort\<close> and returns without forking: its call tree is the
  leaf \<open>SeqSort begin end\<close>. For a span inside the array, in a run in which no child is
  terminated by a signal, a call whose size exceeds the threshold does not do so: when it
  returns, its call tree is a \<open>Split\<close>, and in an undisturbed run with a threshold other
  than 0 it returns. In particular a span of size exactly \<open>threshold\<close> is sorted
  sequentially, a span of size \<open>threshold + 1\<close> is split, and an empty span leaves the
  array as it is. The same holds for every call below: each span sorted by \<open>seq_sort\<close>
  has size at most the threshold and each span that was split has a larger size.
\<close>

theorem merge_sort_sequential_path:
  assumes "begin \<le> end" and "unat end \<le> length arr" and "length arr < 2 ^ 61"
    and "no_child_killed os"
  shows "(end - begin \<le> threshold \<longrightarrow>
            merge_sort os arr begin end threshold
              = Some (Inr (seq_sort arr begin end, SeqSort begin end))) \<and>
         (threshold < end - begin \<longrightarrow>
            (\<forall>arr'. merge_sort os arr begin end threshold
               \<noteq> Some (Inr (arr', SeqSort begin end))) \<and>
            (\<forall>arr' tree. merge_sort os arr begin end threshold = Some (Inr (arr', tree)) \<longrightarrow>
               (\<exists>l r. tree = Split begin end l r)) \<and>
            (threshold \<noteq> 0 \<and> undisturbed os \<longrightarrow>
               (\<exists>arr' l r. merge_sort os arr begin end threshold
                  = Some (Inr (arr', Split begin end l r))))) \<and>
         (end - begin = threshold \<longrightarrow>
            merge_sort os arr begin end threshold
              = Some (Inr (seq_sort arr begin end, SeqSort begin end))) \<and>
         (end - begin = threshold + 1 \<and> threshold + 1 \<noteq> 0 \<longrightarrow>
            (\<forall>arr' tree. merge_sort os arr begin end threshold = Some (Inr (arr', tree)) \<longrightarrow>
               (\<exists>l r. tree = Split begin end l r))) \<and>
         (begin = end \<longrightarrow>
            merge_sort os arr begin end threshold = Some (Inr (arr, SeqSort begin end))) \<and>
         (\<forall>arr' tree. merge_sort os arr begin end threshold = Some (Inr (arr', tree)) \<longrightarrow>
            (\<forall>(b, e) \<in> set (leaves tree). e - b \<le> threshold) \<and>
            (\<forall>(b, e, l, r) \<in> set (splits tree). threshold < e - b))"
proof -
  have small: "merge_sort os arr begin end threshold
      = Some (Inr (seq_sort arr begin end, SeqSort begin end))" if "end - begin \<le> threshold"
    using assms(1) that by (rule merge_sort_small)
  have large: "\<exists>l r. tree = Split begin end l r"
    if "threshold < end - begin" "merge_sort os arr begin end threshold = Some (Inr (arr', tree))"
    for arr' tree
    using merge_sort_returned(2,3) [OF that(2) assms] that(1) by (rule call_tree_root(2))
  have c1: "end - begin \<le> threshold \<longrightarrow>
      merge_sort os arr begin end threshold = Some (Inr (seq_sort arr begin end, SeqSort begin end))"
    using small by blast
  have c2: "threshold < end - begin \<longrightarrow>
      (\<forall>arr'. merge_sort os arr begin end threshold \<noteq> Some (Inr (arr', SeqSort begin end))) \<and>
      (\<forall>arr' tree. merge_sort os arr begin end threshold = Some (Inr (arr', tree)) \<longrightarrow>
         (\<exists>l r. tree = Split begin end l r)) \<and>
      (threshold \<noteq> 0 \<and> undisturbed os \<longrightarrow>
         (\<exists>arr' l r. merge_sort os arr begin end threshold
            = Some (Inr (arr', Split begin end l r))))"
  proof (intro impI conjI allI)
    assume gt: "threshold < end - begin"
    show "merge_sort os arr begin end threshold \<noteq> Some (Inr (arr', SeqSort begin end))" for arr'
      using large [OF gt, of arr' "SeqSort begin end"] by auto
    show "\<exists>l r. tree = Split begin end l r"
      if "merge_sort os arr begin end threshold = Some (Inr (arr', tree))" for arr' tree
      using gt that by (rule large)
    assume "threshold \<noteq> 0 \<and> undisturbed os"
    then have "threshold \<noteq> 0" "undisturbed os" by simp_all
    from merge_sort_total [OF this(1) assms(1-3) this(2)]
    obtain tree where t: "merge_sort os arr begin end threshold
        = Some (Inr (seq_sort arr begin end, tree))"
      by blast
    from large [OF gt t] t
    show "\<exists>arr' l r. merge_sort os arr begin end threshold = Some (Inr (arr', Split begin end l r))"
      by blast
  qed
  have c3: "end - begin = threshold \<longrightarrow>
      merge_sort os arr begin end threshold = Some (Inr (seq_sort arr begin end, SeqSort begin end))"
    using small by simp
  have c4: "end - begin = threshold + 1 \<and> threshold + 1 \<noteq> 0 \<longrightarrow>
      (\<forall>arr' tree. merge_sort os arr begin end threshold = Some (Inr (arr', tree)) \<longrightarrow>
         (\<exists>l r. tree = Split begin end l r))"
  proof (intro impI allI)
    fix arr' tree
    assume h: "end - begin = threshold + 1 \<and> threshold + 1 \<noteq> 0"
      and ret: "merge_sort os arr begin end threshold = Some (Inr (arr', tree))"
    from h have "1 + threshold \<noteq> 0"
      by (simp add: add.commute)
    then have "unat (1 + threshold) = Suc (unat threshold)"
      by (rule unatSuc)
    with h have "threshold < end - begin"
      by (simp add: word_less_nat_alt add.commute)
    then show "\<exists>l r. tree = Split begin end l r"
      using ret by (rule large)
  qed
  have c5: "begin = end \<longrightarrow>
      merge_sort os arr begin end threshold = Some (Inr (arr, SeqSort begin end))"
    using merge_sort_small [of "end" "end" threshold os arr] by (simp add: seq_sort_empty)
  have c6: "\<forall>arr' tree. merge_sort os arr begin end threshold = Some (Inr (arr', tree)) \<longrightarrow>
      (\<forall>(b, e) \<in> set (leaves tree). e - b \<le> threshold) \<and>
      (\<forall>(b, e, l, r) \<in> set (splits tree). threshold < e - b)"
  proof (intro impI allI)
    fix arr' tree
    assume "merge_sort os arr begin end threshold = Some (Inr (arr', tree))"
    from call_tree_inv_facts [OF merge_sort_returned(3) [OF this assms]]
    show "(\<forall>(b, e) \<in> set (leaves tree). e - b \<le> threshold) \<and>
      (\<forall>(b, e, l, r) \<in> set (splits tree). threshold < e - b)"
      by fastforce
  qed
  from c1 c2 c3 c4 c5 c6 show ?thesis
    by (intro conjI)
qed

theorem merge_sort_sequential_path_witness:
  "(0 :: size_t) \<le> 3 \<and> unat (3 :: size_t) \<le> length [3, 1, 2 :: int64_t] \<and>
   length [3, 1, 2 :: int64_t] < 2 ^ 61 \<and> no_child_killed quiet_os \<and>
   (3 :: size_t) - 0 \<le> 3 \<and>
   merge_sort quiet_os [3, 1, 2] 0 3 3 = Some (Inr (seq_sort [3, 1, 2] 0 3, SeqSort 0 3)) \<and>
   (2 :: size_t) < 3 - 0 \<and> (3 :: size_t) - 0 = 2 + 1 \<and> (2 :: size_t) + 1 \<noteq> 0 \<and>
   (2 :: size_t) \<noteq> 0 \<and> undisturbed quiet_os \<and>
   (\<exists>arr' l r. merge_sort quiet_os [3, 1, 2] 0 3 2 = Some (Inr (arr', Split 0 3 l r))) \<and>
   (1 :: size_t) \<le> 1 \<and> unat (1 :: size_t) \<le> length [3, 1, 2 :: int64_t] \<and>
   merge_sort quiet_os [3, 1, 2] 1 1 0 = Some (Inr ([3, 1, 2], SeqSort 1 1))"
proof -
  have v: "(0 :: size_t) \<le> 3" "unat (3 :: size_t) \<le> length [3, 1, 2 :: int64_t]"
    "length [3, 1, 2 :: int64_t] < 2 ^ 61"
    by simp_all
  have v1: "(1 :: size_t) \<le> 1" "unat (1 :: size_t) \<le> length [3, 1, 2 :: int64_t]"
    by simp_all
  note at_threshold = merge_sort_sequential_path [OF v no_child_killed_quiet_os, of 3]
  note above_threshold = merge_sort_sequential_path [OF v no_child_killed_quiet_os, of 2]
  note empty = merge_sort_sequential_path [OF v1 v(3) no_child_killed_quiet_os, of 0]
  have a: "merge_sort quiet_os [3, 1, 2] 0 3 3 = Some (Inr (seq_sort [3, 1, 2] 0 3, SeqSort 0 3))"
    using at_threshold [THEN conjunct1] by simp
  have b: "\<exists>arr' l r. merge_sort quiet_os [3, 1, 2] 0 3 2 = Some (Inr (arr', Split 0 3 l r))"
    using above_threshold [THEN conjunct2, THEN conjunct1] undisturbed_quiet_os by simp
  have c: "merge_sort quiet_os [3, 1, 2] 1 1 0 = Some (Inr ([3, 1, 2], SeqSort 1 1))"
    using empty [THEN conjunct2, THEN conjunct2, THEN conjunct2, THEN conjunct2, THEN conjunct1]
    by simp
  from v v1 a b c no_child_killed_quiet_os undisturbed_quiet_os show ?thesis
    by simp
qed

subsection \<open>C7: the split point\<close>

text \<open>
  Claim C7. In every call tree that \<open>merge_sort\<close> returns for a span inside the array, in
  a run in which no child is terminated by a signal, each call that split a span
  \<open>[b, e)\<close> had a size above the threshold and gave its children the spans \<open>[b, mid)\<close>
  and \<open>[mid, e)\<close> with \<open>mid = b + (e - b) div 2\<close>: the left span has \<open>(e - b) div 2\<close>
  elements (the size halved, rounded down), the right span has \<open>(e - b + 1) div 2\<close>
  (rounded up), the two spans do not overlap and together they are the parent's span. A
  top call whose size exceeds the threshold is such a call.
\<close>

theorem merge_sort_split_point:
  assumes "begin \<le> end" and "unat end \<le> length arr" and "length arr < 2 ^ 61"
    and "no_child_killed os"
    and "merge_sort os arr begin end threshold = Some (Inr (arr', tree))"
  shows "span tree = (begin, end) \<and>
         (threshold < end - begin \<longrightarrow> (\<exists>l r. tree = Split begin end l r)) \<and>
         (\<forall>(b, e, l, r) \<in> set (splits tree).
            threshold < e - b \<and>
            span l = (b, b + (e - b) div 2) \<and> span r = (b + (e - b) div 2, e) \<and>
            b \<le> b + (e - b) div 2 \<and> b + (e - b) div 2 \<le> e \<and>
            unat (b + (e - b) div 2 - b) = unat (e - b) div 2 \<and>
            unat (e - (b + (e - b) div 2)) = (unat (e - b) + 1) div 2 \<and>
            {unat b..<unat (b + (e - b) div 2)} \<inter> {unat (b + (e - b) div 2)..<unat e} = {} \<and>
            {unat b..<unat (b + (e - b) div 2)} \<union> {unat (b + (e - b) div 2)..<unat e}
              = {unat b..<unat e})"
proof -
  note t = merge_sort_returned(2,3) [OF assms(5,1-4)]
  have top: "threshold < end - begin \<longrightarrow> (\<exists>l r. tree = Split begin end l r)"
    using call_tree_root(2) [OF t] by blast
  have "threshold < e - b \<and>
        span l = (b, b + (e - b) div 2) \<and> span r = (b + (e - b) div 2, e) \<and>
        b \<le> b + (e - b) div 2 \<and> b + (e - b) div 2 \<le> e \<and>
        unat (b + (e - b) div 2 - b) = unat (e - b) div 2 \<and>
        unat (e - (b + (e - b) div 2)) = (unat (e - b) + 1) div 2 \<and>
        {unat b..<unat (b + (e - b) div 2)} \<inter> {unat (b + (e - b) div 2)..<unat e} = {} \<and>
        {unat b..<unat (b + (e - b) div 2)} \<union> {unat (b + (e - b) div 2)..<unat e}
          = {unat b..<unat e}"
    if "(b, e, l, r) \<in> set (splits tree)" for b e l r
  proof -
    from call_tree_inv_facts [OF t(2)] that
    have f: "b \<le> e" "threshold < e - b" "span l = (b, b + (e - b) div 2)"
      "span r = (b + (e - b) div 2, e)"
      by fastforce+
    from f(2,3,4) split_sizes [OF f(1)] show ?thesis
      by (intro conjI)
  qed
  with t(1) top show ?thesis
    by blast
qed

theorem merge_sort_split_point_witness:
  "(0 :: size_t) \<le> 3 \<and> unat (3 :: size_t) \<le> length [3, 1, 2 :: int64_t] \<and>
   length [3, 1, 2 :: int64_t] < 2 ^ 61 \<and> no_child_killed quiet_os \<and>
   merge_sort quiet_os [3, 1, 2] 0 3 1
     = Some (Inr ([1, 2, 3], Split 0 3 (SeqSort 0 1) (Split 1 3 (SeqSort 1 2) (SeqSort 2 3)))) \<and>
   span (Split 0 3 (SeqSort 0 1) (Split 1 3 (SeqSort 1 2) (SeqSort 2 3))) = (0, 3) \<and>
   splits (Split 0 3 (SeqSort 0 1) (Split 1 3 (SeqSort 1 2) (SeqSort 2 3)))
     = [(0, 3, SeqSort 0 1, Split 1 3 (SeqSort 1 2) (SeqSort 2 3)),
        (1, 3, SeqSort 1 2, SeqSort 2 3)] \<and>
   (1 :: size_t) < 3 - 0 \<and> (1 :: size_t) < 3 - 1 \<and>
   (0 :: size_t) + (3 - 0) div 2 = 1 \<and> (1 :: size_t) + (3 - 1) div 2 = 2"
  using merge_sort_split_point [of 0 3 "[3, 1, 2]" quiet_os 1,
      OF _ _ _ no_child_killed_quiet_os merge_sort_example]
    merge_sort_example no_child_killed_quiet_os
  by simp

subsection \<open>C8: sorting a sorted span changes nothing\<close>

text \<open>
  Claim C8. When the span \<open>[begin, end)\<close> is already in ascending order, a call of
  \<open>merge_sort\<close> that returns, in a run in which no child is terminated by a signal,
  returns the array it was given, element by element, for every threshold; in an
  undisturbed run with a threshold other than 0 the call returns.
\<close>

theorem merge_sort_idempotent:
  assumes "begin \<le> end" and "unat end \<le> length arr" and "length arr < 2 ^ 61"
    and "no_child_killed os" and "ascending (segment arr begin end)"
  shows "(\<forall>arr' tree. merge_sort os arr begin end threshold = Some (Inr (arr', tree)) \<longrightarrow>
            arr' = arr) \<and>
         (threshold \<noteq> 0 \<and> undisturbed os \<longrightarrow>
            (\<exists>tree. merge_sort os arr begin end threshold = Some (Inr (arr, tree))))"
proof -
  have same: "seq_sort arr begin end = arr"
    using assms(1,2,5) by (rule seq_sort_ascending_id)
  show ?thesis
  proof (intro conjI impI allI)
    fix arr' tree
    assume "merge_sort os arr begin end threshold = Some (Inr (arr', tree))"
    from merge_sort_returned(1) [OF this assms(1-4)]
    show "arr' = arr"
      unfolding same .
  next
    assume "threshold \<noteq> 0 \<and> undisturbed os"
    then have "threshold \<noteq> 0" "undisturbed os" by simp_all
    from merge_sort_total [OF this(1) assms(1-3) this(2)]
    show "\<exists>tree. merge_sort os arr begin end threshold = Some (Inr (arr, tree))"
      unfolding same by blast
  qed
qed

theorem merge_sort_idempotent_witness:
  "(1 :: size_t) \<le> 4 \<and> unat (4 :: size_t) \<le> length [7, - 2, 0, 4, 1 :: int64_t] \<and>
   length [7, - 2, 0, 4, 1 :: int64_t] < 2 ^ 61 \<and> no_child_killed quiet_os \<and>
   ascending (segment [7, - 2, 0, 4, 1] 1 4) \<and>
   (1 :: size_t) \<noteq> 0 \<and> undisturbed quiet_os \<and>
   (\<exists>tree. merge_sort quiet_os [7, - 2, 0, 4, 1] 1 4 1 = Some (Inr ([7, - 2, 0, 4, 1], tree)))"
  using merge_sort_idempotent [of 1 4 "[7, - 2, 0, 4, 1]" quiet_os 1] ascending_example
    no_child_killed_quiet_os undisturbed_quiet_os
  by simp

subsection \<open>C9: the assertion\<close>

text \<open>
  Claim C9. A call of \<open>merge_sort\<close> with \<open>end < begin\<close> stops at its assertion, before it
  reads or writes the array. A call with \<open>begin \<le> end\<close> never ends in a failed assertion,
  and when its span lies inside the array, no child is terminated by a signal and the call
  returns, no call below it failed either: no child is recorded as aborted, and every span
  that was sorted or split has \<open>begin \<le> end\<close>.
\<close>

theorem merge_sort_assertion:
  "(end < begin \<longrightarrow> merge_sort os arr begin end threshold = Some (Inl AssertionFailed)) \<and>
   (begin \<le> end \<longrightarrow> merge_sort os arr begin end threshold \<noteq> Some (Inl AssertionFailed)) \<and>
   (begin \<le> end \<and> unat end \<le> length arr \<and> length arr < 2 ^ 61 \<and> no_child_killed os \<longrightarrow>
      (\<forall>arr' tree. merge_sort os arr begin end threshold = Some (Inr (arr', tree)) \<longrightarrow>
         \<not> aborted tree \<and>
         (\<forall>(b, e) \<in> set (leaves tree). b \<le> e) \<and>
         (\<forall>(b, e, l, r) \<in> set (splits tree). b \<le> e)))"
proof (intro conjI impI allI)
  assume "end < begin"
  then show "merge_sort os arr begin end threshold = Some (Inl AssertionFailed)"
    by (rule merge_sort_assert_fires)
next
  assume "begin \<le> end"
  then show "merge_sort os arr begin end threshold \<noteq> Some (Inl AssertionFailed)"
    by (rule merge_sort_no_assert)
next
  fix arr' tree
  assume valid: "begin \<le> end \<and> unat end \<le> length arr \<and> length arr < 2 ^ 61 \<and> no_child_killed os"
    and ret: "merge_sort os arr begin end threshold = Some (Inr (arr', tree))"
  from valid have v: "begin \<le> end" "unat end \<le> length arr" "length arr < 2 ^ 61"
    "no_child_killed os"
    by simp_all
  note facts = call_tree_inv_facts [OF merge_sort_returned(3) [OF ret v]]
  from facts show "\<not> aborted tree" by blast
  from facts show "\<forall>(b, e) \<in> set (leaves tree). b \<le> e" by fastforce
  from facts show "\<forall>(b, e, l, r) \<in> set (splits tree). b \<le> e" by fastforce
qed

theorem merge_sort_assertion_witness:
  "(0 :: size_t) < 3 \<and> merge_sort quiet_os [3, 1, 2] 3 0 1 = Some (Inl AssertionFailed) \<and>
   (0 :: size_t) \<le> 3 \<and> unat (3 :: size_t) \<le> length [3, 1, 2 :: int64_t] \<and>
   length [3, 1, 2 :: int64_t] < 2 ^ 61 \<and> no_child_killed quiet_os \<and>
   merge_sort quiet_os [3, 1, 2] 0 3 1 \<noteq> Some (Inl AssertionFailed) \<and>
   merge_sort quiet_os [3, 1, 2] 0 3 1
     = Some (Inr ([1, 2, 3], Split 0 3 (SeqSort 0 1) (Split 1 3 (SeqSort 1 2) (SeqSort 2 3)))) \<and>
   \<not> aborted (Split 0 3 (SeqSort 0 1) (Split 1 3 (SeqSort 1 2) (SeqSort 2 3))) \<and>
   leaves (Split 0 3 (SeqSort 0 1) (Split 1 3 (SeqSort 1 2) (SeqSort 2 3)))
     = [(0, 1), (1, 2), (2, 3)]"
  using merge_sort_assertion [of 0 3 quiet_os "[3, 1, 2]" 1]
    merge_sort_assertion [of 3 0 quiet_os "[3, 1, 2]" 1]
    merge_sort_example no_child_killed_quiet_os
  by simp

subsection \<open>C10: nothing outside the span is touched\<close>

text \<open>
  Claim C10. For a span inside the array, in a run in which no child is terminated by a
  signal, a call of \<open>merge_sort\<close> that returns leaves the length of the array and every
  element at an index outside \<open>[begin, end)\<close> as they were. The same holds for its parts:
  \<open>seq_sort\<close> changes no element outside the span; a buffer obtained from \<^verbatim>\<open>malloc\<close>
  has exactly \<open>end - begin\<close> elements; \<open>merge\<close> changes the first \<open>end - begin\<close> elements
  of the buffer and no other, what it writes there depends neither on the buffer's
  previous contents nor on any element of the array outside the span; and the copy back
  changes no element outside the span.
\<close>

theorem merge_sort_frame:
  assumes "begin \<le> end" and "unat end \<le> length arr" and "length arr < 2 ^ 61"
    and "no_child_killed os"
  shows "(\<forall>arr' tree. merge_sort os arr begin end threshold = Some (Inr (arr', tree)) \<longrightarrow>
            length arr' = length arr \<and>
            (\<forall>i < length arr. i < unat begin \<or> unat end \<le> i \<longrightarrow> arr' ! i = arr ! i)) \<and>
         length (seq_sort arr begin end) = length arr \<and>
         (\<forall>i < length arr. i < unat begin \<or> unat end \<le> i \<longrightarrow>
            seq_sort arr begin end ! i = arr ! i) \<and>
         (\<forall>temp_arr. malloc os ((end - begin) * 8) = Some temp_arr \<longrightarrow>
            length temp_arr = unat end - unat begin) \<and>
         (\<forall>mid temparr.
            begin \<le> mid \<and> mid \<le> end \<and> unat end - unat begin \<le> length temparr \<longrightarrow>
              length (merge arr begin mid end temparr) = length temparr \<and>
              drop (unat end - unat begin) (merge arr begin mid end temparr)
                = drop (unat end - unat begin) temparr \<and>
              (\<forall>temparr'. unat end - unat begin \<le> length temparr' \<longrightarrow>
                 take (unat end - unat begin) (merge arr begin mid end temparr')
                   = take (unat end - unat begin) (merge arr begin mid end temparr)) \<and>
              (\<forall>arr2. unat end \<le> length arr2 \<and> segment arr2 begin end = segment arr begin end \<longrightarrow>
                 merge arr2 begin mid end temparr = merge arr begin mid end temparr) \<and>
              length (copy_back arr begin (end - begin) 0 temparr) = length arr \<and>
              (\<forall>i < length arr. i < unat begin \<or> unat end \<le> i \<longrightarrow>
                 copy_back arr begin (end - begin) 0 temparr ! i = arr ! i))"
proof (intro conjI allI impI)
  fix arr' tree
  assume "merge_sort os arr begin end threshold = Some (Inr (arr', tree))"
  from merge_sort_returned(1) [OF this assms]
  have res: "arr' = seq_sort arr begin end" .
  show "length arr' = length arr"
    unfolding res using assms(1,2) by (rule length_seq_sort)
  show "arr' ! i = arr ! i" if "i < unat begin \<or> unat end \<le> i" for i
    unfolding res using assms(1,2) that by (rule seq_sort_frame)
next
  show "length (seq_sort arr begin end) = length arr"
    using assms(1,2) by (rule length_seq_sort)
next
  fix i
  assume "i < unat begin \<or> unat end \<le> i"
  with assms(1,2) show "seq_sort arr begin end ! i = arr ! i"
    by (rule seq_sort_frame)
next
  fix temp_arr
  assume t: "malloc os ((end - begin) * 8) = Some temp_arr"
  have "unat (end - begin) < 2 ^ 61"
    using assms(1-3) by (simp add: unat_span)
  with t have "length temp_arr = unat (end - begin)"
    by (rule length_malloc)
  then show "length temp_arr = unat end - unat begin"
    using assms(1) by (simp only: unat_span)
next
  fix mid and temparr :: "int64_t list"
  assume h: "begin \<le> mid \<and> mid \<le> end \<and> unat end - unat begin \<le> length temparr"
  then have bm: "begin \<le> mid" and me: "mid \<le> end"
    and buf: "unat end - unat begin \<le> length temparr"
    by simp_all
  note fp = merge_footprint [OF bm me assms(2)]
  show "length (merge arr begin mid end temparr) = length temparr"
    using buf by (rule fp(1))
  show "drop (unat end - unat begin) (merge arr begin mid end temparr)
      = drop (unat end - unat begin) temparr"
    using buf by (rule fp(3))
  show "length (copy_back arr begin (end - begin) 0 temparr) = length arr"
    using assms(1,2) buf by (rule copy_back_frame(1))
  {
    fix temparr' :: "int64_t list"
    assume "unat end - unat begin \<le> length temparr'"
    then show "take (unat end - unat begin) (merge arr begin mid end temparr')
        = take (unat end - unat begin) (merge arr begin mid end temparr)"
      using buf by (simp only: fp(2))
  }
  {
    fix arr2 :: "int64_t list"
    assume "unat end \<le> length arr2 \<and> segment arr2 begin end = segment arr begin end"
    then show "merge arr2 begin mid end temparr = merge arr begin mid end temparr"
      using bm me assms(2) buf by (intro merge_reads_span) simp_all
  }
  {
    fix i
    assume "i < unat begin \<or> unat end \<le> i"
    with assms(1,2) buf show "copy_back arr begin (end - begin) 0 temparr ! i = arr ! i"
      by (rule copy_back_frame(2))
  }
qed

theorem merge_sort_frame_witness:
  "(1 :: size_t) \<le> 4 \<and> unat (4 :: size_t) \<le> length [7, 3, 1, 2, 9 :: int64_t] \<and>
   length [7, 3, 1, 2, 9 :: int64_t] < 2 ^ 61 \<and> no_child_killed quiet_os \<and>
   merge_sort quiet_os [7, 3, 1, 2, 9] 1 4 1
     = Some (Inr ([7, 1, 2, 3, 9], Split 1 4 (SeqSort 1 2) (Split 2 4 (SeqSort 2 3) (SeqSort 3 4)))) \<and>
   length [7, 1, 2, 3, 9 :: int64_t] = length [7, 3, 1, 2, 9 :: int64_t] \<and>
   [7, 1, 2, 3, 9 :: int64_t] ! 0 = [7, 3, 1, 2, 9] ! 0 \<and>
   [7, 1, 2, 3, 9 :: int64_t] ! 4 = [7, 3, 1, 2, 9] ! 4 \<and>
   seq_sort [7, 3, 1, 2, 9] 1 4 ! 0 = 7 \<and> seq_sort [7, 3, 1, 2, 9] 1 4 ! 4 = 9 \<and>
   malloc quiet_os ((4 - 1) * 8) = Some [0, 0, 0] \<and> length [0, 0, 0 :: int64_t] = 3"
  using merge_sort_frame [of 1 4 "[7, 3, 1, 2, 9]" quiet_os 1] merge_sort_inner_example
    seq_sort_inner_example malloc_example no_child_killed_quiet_os
  by simp

end
